theory Spec2Isabelle
  imports Main "HOL-Library.Sublist"
begin

section \<open>Common conventions\<close>

text \<open>
  A call that can raise returns a sum: \<open>Inl message\<close> is the exception with its message
  (the scraper stores \<^verbatim>\<open>str(e)\<close> in its result), \<open>Inr value\<close> the value returned.
  Strings are lists of characters, a character being a code point below 256. Console
  output and the fixed sleeps inside a function are not part of the model; the sleep
  between two providers is.
\<close>

type_synonym 'a raises = "string + 'a"

text \<open>\<^verbatim>\<open>str(i)\<close> for a non-negative integer: its decimal digits.\<close>

fun py_str :: "nat \<Rightarrow> string" where
  "py_str n = (if n < 10 then [char_of (48 + n)] else py_str (n div 10) @ [char_of (48 + n mod 10)])"

declare py_str.simps [simp del]

text \<open>
  \<^verbatim>\<open>value or default\<close> on the result of \<^verbatim>\<open>get_attribute\<close>: the default is taken
  when the attribute is absent (\<open>None\<close>) or the empty string.
\<close>

definition py_or :: "string option \<Rightarrow> string \<Rightarrow> string" where
  "py_or v d = (case v of None \<Rightarrow> d | Some s \<Rightarrow> if s = [] then d else s)"

text \<open>
  Python's \<^verbatim>\<open>str.replace(old, new)\<close>: the string is scanned from the left, every
  occurrence of \<open>old\<close> found is replaced by \<open>new\<close> and the scan goes on behind the
  occurrence, so the occurrences replaced do not overlap. With the empty pattern Python
  puts \<open>new\<close> in front of every character and at the end.
\<close>

fun replace :: "'a list \<Rightarrow> 'a list \<Rightarrow> 'a list \<Rightarrow> 'a list" where
  "replace old new [] = (if old = [] then new else [])"
| "replace old new (c # cs) =
     (if old = [] then new @ c # replace old new cs
      else if prefix old (c # cs) then new @ replace old new (drop (length old) (c # cs))
      else c # replace old new cs)"


section \<open>The image fetcher (url\_quality\_fixer.py)\<close>

subsection \<open>fix\_image\_url\_quality\<close>

definition bad_quality :: string where
  "bad_quality = ''quality=20,blur=150''"

definition good_quality :: string where
  "good_quality = ''quality=90,blur=0''"

definition good_pattern :: string where
  "good_pattern = ''width=195,height=260,quality=90,blur=0,fit=cover''"

definition better_pattern :: string where
  "better_pattern = ''width=400,height=600,quality=95,blur=0,fit=contain''"

text \<open>
  The empty URL is returned as it is; otherwise the two replacements are applied one
  after the other, the second to the result of the first.
\<close>

definition fix_image_url_quality :: "string \<Rightarrow> string" where
  "fix_image_url_quality url =
     (if url = [] then url
      else replace good_pattern better_pattern (replace bad_quality good_quality url))"

text \<open>
  For the proofs: an occurrence of \<open>p\<close> can begin inside \<open>w\<close>, ending inside it or
  running over its end.
\<close>

fun starts_within :: "'a list \<Rightarrow> 'a list \<Rightarrow> bool" where
  "starts_within p [] = False"
| "starts_within p (x # xs) = (prefix p (x # xs) \<or> prefix (x # xs) p \<or> starts_within p xs)"

subsection \<open>sanitize\_filename\<close>

text \<open>
  The characters replaced by an underscore: \<^verbatim>\<open>< > : " / \ | ? *\<close>.
\<close>

definition invalid_chars :: string where
  "invalid_chars =
     [CHR ''<'', CHR ''>'', CHR '':'', CHR 0x22, CHR ''/'', CHR 0x5C, CHR ''|'', CHR ''?'',
      CHR ''*'']"

text \<open>
  White space as \<^verbatim>\<open>\s\<close> and \<^verbatim>\<open>str.strip()\<close> see it. A character is a code point
  below 256; among these the white space is the space, the characters 9 to 13 and 28 to
  31, and the characters 133 and 160. Code points from 256 on are outside the model.
\<close>

definition is_space :: "char \<Rightarrow> bool" where
  "is_space c =
     (let n = (of_char c :: nat) in
      n = 32 \<or> (9 \<le> n \<and> n \<le> 13) \<or> (28 \<le> n \<and> n \<le> 31) \<or> n = 133 \<or> n = 160)"

text \<open>\<^verbatim>\<open>re.sub(r'\s+', ' ', s)\<close>: every maximal run of white space becomes one space.\<close>

function collapse_spaces :: "string \<Rightarrow> string" where
  "collapse_spaces [] = []"
| "collapse_spaces (c # cs) =
     (if is_space c then CHR '' '' # collapse_spaces (dropWhile is_space cs)
      else c # collapse_spaces cs)"
  by pat_completeness auto
termination
  by (relation "measure length") (auto simp: le_imp_less_Suc length_dropWhile_le)

text \<open>\<^verbatim>\<open>s.strip()\<close> and \<^verbatim>\<open>s.strip('.')\<close>: the characters taken off both ends.\<close>

definition strip :: "(char \<Rightarrow> bool) \<Rightarrow> string \<Rightarrow> string" where
  "strip P s = rev (dropWhile P (rev (dropWhile P s)))"

definition sanitize_filename :: "string \<Rightarrow> string" where
  "sanitize_filename filename =
     strip (\<lambda>c. c = CHR ''.'')
       (strip is_space
          (collapse_spaces (fold (\<lambda>char f. replace [char] ''_'' f) invalid_chars filename)))"

subsection \<open>download\_and\_convert\_image\<close>

text \<open>
  What the network and the image library do with one request: the fetch fails (transport
  error, time-out or a status that \<^verbatim>\<open>raise_for_status\<close> rejects), the bytes do not decode
  as an image, the conversion or the encoding fails, or the file is written. Every
  exception is caught inside the function, which then returns \<open>False\<close>. The set is the
  set of the paths that exist; a failed call is taken to leave no file behind.
\<close>

datatype download_outcome = FetchFails string | DecodeFails string | EncodeFails string | Saved

definition download_and_convert_image ::
  "(string \<Rightarrow> download_outcome) \<Rightarrow> string \<Rightarrow> string \<Rightarrow> string set \<Rightarrow> bool \<times> string set" where
  "download_and_convert_image http image_url output_path existing =
     (case http image_url of
        Saved \<Rightarrow> (True, insert output_path existing)
      | FetchFails e \<Rightarrow> (False, existing)
      | DecodeFails e \<Rightarrow> (False, existing)
      | EncodeFails e \<Rightarrow> (False, existing))"

subsection \<open>process\_provider\_with\_fixed\_urls\<close>

text \<open>
  A game of the JSON file is a dictionary from keys to strings, as the scraper writes it.
  \<^verbatim>\<open>os.path.join\<close> is the one of POSIX.
\<close>

type_synonym game_dict = "string \<rightharpoonup> string"

definition dict_get :: "game_dict \<Rightarrow> string \<Rightarrow> string \<Rightarrow> string" where
  "dict_get d k dflt = (case d k of None \<Rightarrow> dflt | Some v \<Rightarrow> v)"

definition path_join :: "string \<Rightarrow> string \<Rightarrow> string" where
  "path_join a b =
     (if b \<noteq> [] \<and> hd b = CHR ''/'' then b
      else if a = [] \<or> last a = CHR ''/'' then a @ b
      else a @ ''/'' @ b)"

record processed_game =
  file_name :: string
  game_title :: string
  game_provider :: string
  game_url :: string
  original_url :: string
  fixed_url :: string
  local_path :: string

text \<open>
  The variables of the loop of line 103, the paths that exist on disk, and \<open>fetches\<close>:
  the HTTP requests made so far, each with the position of its game, its URL and the
  path the image was to be written to.
\<close>

record fetch_state =
  existing_files :: "string set"
  successful_downloads :: nat
  processed_games :: "processed_game list"
  bad_quality_fixed :: nat
  fetches :: "(nat \<times> string \<times> string) list"

definition game_filename :: "string \<Rightarrow> nat \<Rightarrow> game_dict \<Rightarrow> string" where
  "game_filename provider_name i game =
     sanitize_filename provider_name @ '' - ''
       @ sanitize_filename (dict_get game ''name'' (''Game '' @ py_str i)) @ ''.webp''"

definition game_image_path :: "string \<Rightarrow> nat \<Rightarrow> game_dict \<Rightarrow> string" where
  "game_image_path provider_name i game =
     path_join (path_join ''Final_Quality_Fixed'' provider_name)
       (game_filename provider_name i game)"

text \<open>The dictionary appended to \<^verbatim>\<open>processed_games\<close> (lines 138 to 146).\<close>

definition processed_entry :: "string \<Rightarrow> nat \<Rightarrow> game_dict \<Rightarrow> processed_game" where
  "processed_entry provider_name i game =
     \<lparr>file_name = game_filename provider_name i game,
      game_title = dict_get game ''name'' (''Game '' @ py_str i),
      game_provider = provider_name,
      game_url = dict_get game ''game_link'' [],
      original_url = dict_get game ''image_url'' [],
      fixed_url = fix_image_url_quality (dict_get game ''image_url'' []),
      local_path = game_image_path provider_name i game\<rparr>"

text \<open>
  The body of the loop for the game at position \<open>i\<close>; \<open>http i\<close> answers its request.
\<close>

definition process_game ::
  "(nat \<Rightarrow> string \<Rightarrow> download_outcome) \<Rightarrow> string \<Rightarrow> nat \<Rightarrow> game_dict \<Rightarrow> fetch_state
   \<Rightarrow> fetch_state" where
  "process_game http provider_name i game st =
     (let original_image_url = dict_get game ''image_url'' [] in
      if original_image_url = [] then st
      else
        (let fixed_image_url = fix_image_url_quality original_image_url;
             st1 = (if sublist bad_quality original_image_url
                    then st\<lparr>bad_quality_fixed := bad_quality_fixed st + 1\<rparr> else st);
             image_path = game_image_path provider_name i game;
             st2 =
               (if image_path \<in> existing_files st1
                then st1\<lparr>successful_downloads := successful_downloads st1 + 1\<rparr>
                else
                  (case download_and_convert_image (http i) fixed_image_url image_path
                          (existing_files st1) of
                     (ok, existing) \<Rightarrow>
                       st1\<lparr>existing_files := existing,
                           successful_downloads :=
                             (if ok then successful_downloads st1 + 1
                              else successful_downloads st1),
                           fetches := fetches st1 @ [(i, fixed_image_url, image_path)]\<rparr>))
         in st2\<lparr>processed_games :=
                  processed_games st2 @ [processed_entry provider_name i game]\<rparr>))"

fun process_games ::
  "(nat \<Rightarrow> string \<Rightarrow> download_outcome) \<Rightarrow> string \<Rightarrow> nat \<Rightarrow> game_dict list \<Rightarrow> fetch_state
   \<Rightarrow> fetch_state" where
  "process_games http provider_name i [] st = st"
| "process_games http provider_name i (game # rest) st =
     process_games http provider_name (i + 1) rest (process_game http provider_name i game st)"

text \<open>
  The whole function, from the games read from the JSON file (\<open>Inl\<close>: reading raises)
  and the paths that exist: the state at the end, whose \<open>processed_games\<close> the function
  returns. A file that cannot be read and an empty list of games give the empty list.
\<close>

definition start_state :: "string set \<Rightarrow> fetch_state" where
  "start_state existing =
     \<lparr>existing_files = existing, successful_downloads = 0, processed_games = [],
      bad_quality_fixed = 0, fetches = []\<rparr>"

definition process_provider_state ::
  "(nat \<Rightarrow> string \<Rightarrow> download_outcome) \<Rightarrow> string set \<Rightarrow> string \<Rightarrow> game_dict list raises
   \<Rightarrow> fetch_state" where
  "process_provider_state http existing provider_name json_games =
     (case json_games of
        Inl e \<Rightarrow> start_state existing
      | Inr gs \<Rightarrow> process_games http provider_name 1 gs (start_state existing))"

definition process_provider_with_fixed_urls ::
  "(nat \<Rightarrow> string \<Rightarrow> download_outcome) \<Rightarrow> string set \<Rightarrow> string \<Rightarrow> game_dict list raises
   \<Rightarrow> processed_game list" where
  "process_provider_with_fixed_urls http existing provider_name json_games =
     processed_games (process_provider_state http existing provider_name json_games)"

text \<open>
  For the statements: the entries of the games that have an image URL, each at the
  position of its game, in the order of the games.
\<close>

fun entries_with_url :: "string \<Rightarrow> nat \<Rightarrow> game_dict list \<Rightarrow> processed_game list" where
  "entries_with_url provider_name i [] = []"
| "entries_with_url provider_name i (game # rest) =
     (if dict_get game ''image_url'' [] = [] then entries_with_url provider_name (i + 1) rest
      else processed_entry provider_name i game # entries_with_url provider_name (i + 1) rest)"

text \<open>A game as the scraper writes it, for the checks at concrete inputs.\<close>

definition sample_game :: game_dict where
  "sample_game =
     [''name'' \<mapsto> ''A'', ''image_url'' \<mapsto> ''https://cdn/quality=20,blur=150/a.png'',
      ''game_link'' \<mapsto> ''/game'']"


section \<open>The scraper (clean\_multi\_provider\_scraper.py)\<close>

subsection \<open>close\_all\_chrome\<close>

text \<open>
  A process as \<^verbatim>\<open>psutil.process_iter(['pid', 'name'])\<close> yields it: its name, \<open>None\<close>
  when it could not be read, and the exception of \<^verbatim>\<open>proc.kill()\<close> if it raises.
\<close>

record process =
  pid :: nat
  proc_name :: "string option"
  kill_error :: "string option"

text \<open>\<^verbatim>\<open>str.lower()\<close> on the code points below 256.\<close>

definition lower_char :: "char \<Rightarrow> char" where
  "lower_char c =
     (let n = (of_char c :: nat) in
      if (65 \<le> n \<and> n \<le> 90) \<or> (192 \<le> n \<and> n \<le> 222 \<and> n \<noteq> 215) then char_of (n + 32) else c)"


text \<open>
  The function from the processes that run to those that still run after it. The loop
  kills every process whose name in lower case contains \<^verbatim>\<open>chrome\<close>. It is inside one
  \<^verbatim>\<open>try\<close>: at the first process whose name is \<open>None\<close> (\<^verbatim>\<open>.lower()\<close> raises) or whose
  \<^verbatim>\<open>kill\<close> raises, the bare \<^verbatim>\<open>except\<close> ends the loop and the processes from there on are
  left as they are. The function itself never raises.
\<close>

fun close_all_chrome :: "process list \<Rightarrow> process list" where
  "close_all_chrome [] = []"
| "close_all_chrome (p # ps) =
     (case proc_name p of
        None \<Rightarrow> p # ps
      | Some n \<Rightarrow>
          if sublist ''chrome'' (map lower_char n)
          then (case kill_error p of None \<Rightarrow> close_all_chrome ps | Some e \<Rightarrow> p # ps)
          else p # close_all_chrome ps)"

subsection \<open>The Load More loop\<close>

text \<open>
  The Load More loop of \<^verbatim>\<open>scrape_single_provider\<close> (lines 53 to 64): \<open>button k\<close> says
  whether, after \<open>k\<close> clicks, the button is found and clicked. \<open>click_count\<close> is the variable of the source;
  \<open>iterations\<close> counts the executions of the loop body and is not in the source: it is
  there to state how often the loop runs.
\<close>

function expansion_loop :: "(nat \<Rightarrow> bool) \<Rightarrow> nat \<Rightarrow> nat \<Rightarrow> nat \<times> nat" where
  "expansion_loop button click_count iterations =
     (if click_count < 50 then
        (if button click_count
         then expansion_loop button (click_count + 1) (iterations + 1)
         else (click_count, iterations + 1))
      else (click_count, iterations))"
  by pat_completeness auto
termination
  by (relation "measure (\<lambda>(button, click_count, iterations). 50 - click_count)") auto

declare expansion_loop.simps [simp del]

subsection \<open>The page as the browser shows it\<close>

text \<open>
  The browser is an opaque capability. An anchor of the listing gives its image element
  and its \<^verbatim>\<open>href\<close>; an image element gives its \<^verbatim>\<open>alt\<close> and \<^verbatim>\<open>src\<close>; each of these
  lookups can raise. A page gives: the error of \<^verbatim>\<open>driver.get\<close> if it raises; for the
  number of clicks made so far, whether the Load More button is found and clicked
  (\<open>False\<close>: \<^verbatim>\<open>find_element\<close> or \<^verbatim>\<open>click\<close> raises); the anchors found under the
  listing (lines 73 to 83: the three lookups, \<open>Inl\<close> when one of them raises);
  \<^verbatim>\<open>driver.page_source\<close>; and the error of \<^verbatim>\<open>driver.quit()\<close> if it raises.
\<close>

record img_element =
  alt :: "string option raises"
  src :: "string option raises"

record anchor_element =
  img :: "img_element raises"
  href :: "string option raises"

record page =
  get_error :: "string option"
  load_more :: "nat \<Rightarrow> bool"
  anchors :: "anchor_element list raises"
  page_source :: "string raises"
  quit_error :: "string option"

record game_data =
  index :: nat
  name :: string
  image_url :: string
  game_link :: string

record result =
  success :: bool
  error :: "string option"
  games :: "game_data list"
  click_count :: nat
  html :: string

subsection \<open>scrape\_single\_provider\<close>

text \<open>The body of the \<^verbatim>\<open>try\<close> of lines 88 to 107, for the anchor at position \<open>i\<close>.\<close>

definition extract_game :: "nat \<Rightarrow> anchor_element \<Rightarrow> game_data raises" where
  "extract_game i anchor =
     (case img anchor of
        Inl e \<Rightarrow> Inl e
      | Inr im \<Rightarrow>
          (case alt im of
             Inl e \<Rightarrow> Inl e
           | Inr a \<Rightarrow>
               (case src im of
                  Inl e \<Rightarrow> Inl e
                | Inr s \<Rightarrow>
                    (case href anchor of
                       Inl e \<Rightarrow> Inl e
                     | Inr h \<Rightarrow>
                         Inr \<lparr>index = i, name = py_or a (''Game '' @ py_str i),
                              image_url = py_or s [], game_link = py_or h []\<rparr>))))"

text \<open>An anchor for which one of the lookups made by the extraction raises.\<close>

definition extraction_raises :: "anchor_element \<Rightarrow> bool" where
  "extraction_raises anchor =
     (case img anchor of
        Inl e \<Rightarrow> True
      | Inr im \<Rightarrow> isl (alt im) \<or> isl (src im) \<or> isl (href anchor))"

text \<open>
  The loop \<^verbatim>\<open>for i, anchor in enumerate(anchors, 1)\<close>: an anchor whose extraction raises
  is passed over (\<^verbatim>\<open>except Exception\<close>), the others are appended in order.
\<close>

fun harvest :: "nat \<Rightarrow> anchor_element list \<Rightarrow> game_data list" where
  "harvest i [] = []"
| "harvest i (anchor # rest) =
     (case extract_game i anchor of
        Inl e \<Rightarrow> harvest (i + 1) rest
      | Inr game \<Rightarrow> game # harvest (i + 1) rest)"

definition failure :: "string \<Rightarrow> result" where
  "failure e = \<lparr>success = False, error = Some e, games = [], click_count = 0, html = []\<rparr>"

text \<open>
  The body of the outer \<^verbatim>\<open>try\<close> (lines 41 to 124) on a page: every exception inside it
  gives the failure result. The page source is read last, when the result is built
  (line 113), after the harvest.
\<close>

definition scrape_page :: "page \<Rightarrow> result" where
  "scrape_page pg =
     (case get_error pg of
        Some e \<Rightarrow> failure e
      | None \<Rightarrow>
          (case anchors pg of
             Inl e \<Rightarrow> failure e
           | Inr found \<Rightarrow>
               (case page_source pg of
                  Inl e \<Rightarrow> failure e
                | Inr source \<Rightarrow>
                    \<lparr>success = True, error = None, games = harvest 1 found,
                     click_count = fst (expansion_loop (load_more pg) 0 0),
                     html = source\<rparr>)))"

text \<open>
  \<open>chrome url\<close> is the browser session of this call: \<open>Inl\<close> when \<^verbatim>\<open>webdriver.Chrome()\<close>
  raises, which happens before the \<^verbatim>\<open>try\<close> and so leaves the function as an exception;
  \<open>Inr\<close> the page the session shows for the URL. \<^verbatim>\<open>driver.quit()\<close> runs in the
  \<^verbatim>\<open>finally\<close> block: when it raises, its exception leaves the function in place of the
  result.
\<close>

definition scrape_single_provider ::
  "(string \<Rightarrow> page raises) \<Rightarrow> string \<Rightarrow> string \<Rightarrow> result raises" where
  "scrape_single_provider chrome provider_url provider_name =
     (case chrome provider_url of
        Inl e \<Rightarrow> Inl e
      | Inr pg \<Rightarrow>
          (case quit_error pg of
             Some e \<Rightarrow> Inl e
           | None \<Rightarrow> Inr (scrape_page pg)))"

subsection \<open>The checkpoint file\<close>

text \<open>
  The JSON object written to \<^verbatim>\<open>checkpoint.json\<close>. The file is \<open>None\<close> when it does not
  exist and its text otherwise.
\<close>

record checkpoint_data =
  ck_completed_providers :: "string list"
  ck_last_updated :: string
  ck_total_games_so_far :: nat
  ck_successful_providers :: nat

text \<open>
  Lines 221 to 231: without a file, or when reading it raises, the list stays empty.
  Only the key \<^verbatim>\<open>completed_providers\<close> is read. \<open>json_load\<close> is what \<^verbatim>\<open>json.load\<close> and
  the reading of the keys give for a text, \<open>None\<close> when they raise; the model of the
  library below is one such function.
\<close>

definition load_checkpoint ::
  "(string \<Rightarrow> checkpoint_data option) \<Rightarrow> string option \<Rightarrow> string list" where
  "load_checkpoint json_load checkpoint_file =
     (case checkpoint_file of
        None \<Rightarrow> []
      | Some text \<Rightarrow>
          (case json_load text of
             None \<Rightarrow> []
           | Some checkpoint \<Rightarrow> ck_completed_providers checkpoint))"

text \<open>
  Lines 270 and 271: \<^verbatim>\<open>open(checkpoint_file, 'w')\<close> empties the file itself, then
  \<^verbatim>\<open>json.dump\<close> writes the document into it from the front. \<open>interrupted_write doc k\<close>
  is the file when the write stops after \<open>k\<close> characters of the document \<open>doc\<close> have
  reached it: \<open>k = 0\<close> is the file just emptied, \<open>k = length doc\<close> the finished write.
\<close>

definition interrupted_write :: "string \<Rightarrow> nat \<Rightarrow> string option" where
  "interrupted_write doc k = Some (take k doc)"

text \<open>
  Following the words of the specification, for comparison: with write-then-replace the
  document goes to another file, which replaces the checkpoint file once it is complete,
  so the checkpoint file is the old one until then.
\<close>

definition write_then_replace :: "string option \<Rightarrow> string \<Rightarrow> nat \<Rightarrow> string option" where
  "write_then_replace old_file doc k = (if k < length doc then old_file else Some doc)"

subsection \<open>json.dump of a checkpoint\<close>

text \<open>
  The text \<^verbatim>\<open>json.dump(checkpoint_data, f, indent=2)\<close> writes, after the encoder of
  Python's library. A string is put between double quotes; the double quote, the
  backslash and the characters 8, 9, 10, 12 and 13 get their two-character escapes, the
  other characters from 32 to 126 stand for themselves, and every other character is
  written \<^verbatim>\<open>\u00XX\<close> with its code in lower-case hexadecimal digits
  (\<^verbatim>\<open>ensure_ascii\<close>). The members of the object and the items of the list are on lines
  of their own, indented by two spaces for each level; the empty list is \<^verbatim>\<open>[]\<close>.
\<close>

definition hex_char :: "nat \<Rightarrow> char" where
  "hex_char d = (if d < 10 then char_of (48 + d) else char_of (87 + d))"

definition escape_char :: "char \<Rightarrow> string" where
  "escape_char c =
     (let n = (of_char c :: nat) in
      if n = 34 then [CHR 0x5C, CHR 0x22]
      else if n = 92 then [CHR 0x5C, CHR 0x5C]
      else if n = 10 then [CHR 0x5C, CHR ''n'']
      else if n = 13 then [CHR 0x5C, CHR ''r'']
      else if n = 9 then [CHR 0x5C, CHR ''t'']
      else if n = 8 then [CHR 0x5C, CHR ''b'']
      else if n = 12 then [CHR 0x5C, CHR ''f'']
      else if 32 \<le> n \<and> n \<le> 126 then [c]
      else [CHR 0x5C, CHR ''u'', CHR ''0'', CHR ''0'', hex_char (n div 16), hex_char (n mod 16)])"

definition encode_string :: "string \<Rightarrow> string" where
  "encode_string s = CHR 0x22 # concat (map escape_char s) @ [CHR 0x22]"

fun dump_items :: "string list \<Rightarrow> string" where
  "dump_items [] = []"
| "dump_items [x] = encode_string x"
| "dump_items (x # xs) = encode_string x @ '','' @ [CHR 0x0A] @ ''    '' @ dump_items xs"

definition dump_list :: "string list \<Rightarrow> string" where
  "dump_list xs =
     (if xs = [] then ''[]''
      else ''['' @ [CHR 0x0A] @ ''    '' @ dump_items xs @ [CHR 0x0A] @ ''  ]'')"

definition json_dumps :: "checkpoint_data \<Rightarrow> string" where
  "json_dumps checkpoint =
     ''{'' @ [CHR 0x0A]
     @ ''  '' @ encode_string ''completed_providers'' @ '': ''
       @ dump_list (ck_completed_providers checkpoint) @ '','' @ [CHR 0x0A]
     @ ''  '' @ encode_string ''last_updated'' @ '': ''
       @ encode_string (ck_last_updated checkpoint) @ '','' @ [CHR 0x0A]
     @ ''  '' @ encode_string ''total_games_so_far'' @ '': ''
       @ py_str (ck_total_games_so_far checkpoint) @ '','' @ [CHR 0x0A]
     @ ''  '' @ encode_string ''successful_providers'' @ '': ''
       @ py_str (ck_successful_providers checkpoint) @ [CHR 0x0A]
     @ ''}''"

subsection \<open>json.load\<close>

text \<open>
  The decoder of Python's library (\<^verbatim>\<open>json.load\<close> reads the file and calls
  \<^verbatim>\<open>json.loads\<close>), as a machine that reads the text once from the left, after the
  grammar of the library. A number is kept as its text. The library reads by recursive
  descent; the machine keeps the containers that are still open on a stack instead.

  \<^item> White space between tokens is the space and the characters 9, 10 and 13.
  \<^item> A number is \<^verbatim>\<open>-?(0|[1-9][0-9]*)(\.[0-9]+)?([eE][-+]?[0-9]+)?\<close>; where the library
    would end the number in front of a \<^verbatim>\<open>.\<close> or \<^verbatim>\<open>e\<close> that no digit follows, the rest
    can never be read, and the machine stops at once.
  \<^item> \<^verbatim>\<open>NaN\<close>, \<^verbatim>\<open>Infinity\<close> and \<^verbatim>\<open>-Infinity\<close> are read as numbers.
  \<^item> A string must not contain a character below 32; the escapes are those of JSON. An
    escape \<^verbatim>\<open>\uXXXX\<close> for a code point from 256 on is outside the characters of the
    model: the machine stops.
  \<^item> After the value only white space may follow.
\<close>

datatype json =
    JNull | JBool bool | JNumber string | JString string
  | JArray "json list" | JObject "(string \<times> json) list"

text \<open>
  A container still open: a list with its items so far, an object with its members so
  far, an object whose next key has been read.
\<close>

datatype frame =
    AFrame "json list"
  | OFrame "(string \<times> json) list"
  | OKey "(string \<times> json) list" string

datatype expect =
    EValue | EValueOrClose | EKeyOrClose | EKey | EColon | ECommaOrClose | EEnd json

datatype numstate = NMinus | NZero | NInt | NDot | NFrac | NExpMark | NExpSign | NExp

datatype lexing =
    Between
  | InString string
  | InEscape string
  | InUnicode string "nat list"
  | InNumber numstate string
  | InLiteral json string

datatype config = Config lexing expect "frame list"

definition is_ws :: "char \<Rightarrow> bool" where
  "is_ws c = (c = CHR '' '' \<or> c = CHR 0x09 \<or> c = CHR 0x0A \<or> c = CHR 0x0D)"

definition is_digit :: "char \<Rightarrow> bool" where
  "is_digit c = (48 \<le> (of_char c :: nat) \<and> (of_char c :: nat) \<le> 57)"

definition hex_value :: "char \<Rightarrow> nat option" where
  "hex_value c =
     (let n = (of_char c :: nat) in
      if 48 \<le> n \<and> n \<le> 57 then Some (n - 48)
      else if 97 \<le> n \<and> n \<le> 102 then Some (n - 87)
      else if 65 \<le> n \<and> n \<le> 70 then Some (n - 55)
      else None)"

text \<open>A value is complete: it is the whole document, or goes into the container on top.\<close>

fun deliver :: "json \<Rightarrow> frame list \<Rightarrow> config option" where
  "deliver v [] = Some (Config Between (EEnd v) [])"
| "deliver v (AFrame xs # st) = Some (Config Between ECommaOrClose (AFrame (xs @ [v]) # st))"
| "deliver v (OKey ms k # st) = Some (Config Between ECommaOrClose (OFrame (ms @ [(k, v)]) # st))"
| "deliver v (OFrame ms # st) = None"

definition start_value :: "expect \<Rightarrow> frame list \<Rightarrow> char \<Rightarrow> config option" where
  "start_value e st c =
     (if c = CHR 0x22 then Some (Config (InString []) e st)
      else if c = CHR ''{'' then Some (Config Between EKeyOrClose (OFrame [] # st))
      else if c = CHR ''['' then Some (Config Between EValueOrClose (AFrame [] # st))
      else if c = CHR ''n'' then Some (Config (InLiteral JNull ''ull'') e st)
      else if c = CHR ''t'' then Some (Config (InLiteral (JBool True) ''rue'') e st)
      else if c = CHR ''f'' then Some (Config (InLiteral (JBool False) ''alse'') e st)
      else if c = CHR ''N'' then Some (Config (InLiteral (JNumber ''NaN'') ''aN'') e st)
      else if c = CHR ''I'' then Some (Config (InLiteral (JNumber ''Infinity'') ''nfinity'') e st)
      else if c = CHR ''-'' then Some (Config (InNumber NMinus ''-'') e st)
      else if c = CHR ''0'' then Some (Config (InNumber NZero ''0'') e st)
      else if is_digit c then Some (Config (InNumber NInt [c]) e st)
      else None)"

text \<open>A character that is not white space, between two tokens.\<close>

fun at_token :: "expect \<Rightarrow> frame list \<Rightarrow> char \<Rightarrow> config option" where
  "at_token EValue st c = start_value EValue st c"
| "at_token EValueOrClose st c =
     (if c = CHR '']'' then (case st of AFrame xs # st' \<Rightarrow> deliver (JArray xs) st' | _ \<Rightarrow> None)
      else start_value EValueOrClose st c)"
| "at_token EKeyOrClose st c =
     (if c = CHR ''}'' then (case st of OFrame ms # st' \<Rightarrow> deliver (JObject ms) st' | _ \<Rightarrow> None)
      else if c = CHR 0x22 then Some (Config (InString []) EKeyOrClose st)
      else None)"
| "at_token EKey st c = (if c = CHR 0x22 then Some (Config (InString []) EKey st) else None)"
| "at_token EColon st c = (if c = CHR '':'' then Some (Config Between EValue st) else None)"
| "at_token ECommaOrClose st c =
     (case st of
        AFrame xs # st' \<Rightarrow>
          if c = CHR '','' then Some (Config Between EValue st)
          else if c = CHR '']'' then deliver (JArray xs) st'
          else None
      | OFrame ms # st' \<Rightarrow>
          if c = CHR '','' then Some (Config Between EKey st)
          else if c = CHR ''}'' then deliver (JObject ms) st'
          else None
      | _ \<Rightarrow> None)"
| "at_token (EEnd v) st c = None"

definition outside_token :: "expect \<Rightarrow> frame list \<Rightarrow> char \<Rightarrow> config option" where
  "outside_token e st c = (if is_ws c then Some (Config Between e st) else at_token e st c)"

text \<open>The string just closed is a key of the object on top, or a value.\<close>

definition close_string :: "string \<Rightarrow> expect \<Rightarrow> frame list \<Rightarrow> config option" where
  "close_string s e st =
     (if e = EKeyOrClose \<or> e = EKey
      then (case st of OFrame ms # st' \<Rightarrow> Some (Config Between EColon (OKey ms s # st'))
                     | _ \<Rightarrow> None)
      else deliver (JString s) st)"

definition unescape :: "char \<Rightarrow> char option" where
  "unescape c =
     (if c = CHR 0x22 \<or> c = CHR 0x5C \<or> c = CHR ''/'' then Some c
      else if c = CHR ''b'' then Some (CHR 0x08)
      else if c = CHR ''f'' then Some (CHR 0x0C)
      else if c = CHR ''n'' then Some (CHR 0x0A)
      else if c = CHR ''r'' then Some (CHR 0x0D)
      else if c = CHR ''t'' then Some (CHR 0x09)
      else None)"

definition number_complete :: "numstate \<Rightarrow> bool" where
  "number_complete ns = (ns = NZero \<or> ns = NInt \<or> ns = NFrac \<or> ns = NExp)"

text \<open>The next state of a number on a character that continues it.\<close>

definition number_next :: "numstate \<Rightarrow> char \<Rightarrow> numstate option" where
  "number_next ns c =
     (case ns of
        NMinus \<Rightarrow> if c = CHR ''0'' then Some NZero else if is_digit c then Some NInt else None
      | NZero \<Rightarrow> if c = CHR ''.'' then Some NDot
                 else if c = CHR ''e'' \<or> c = CHR ''E'' then Some NExpMark else None
      | NInt \<Rightarrow> if is_digit c then Some NInt else if c = CHR ''.'' then Some NDot
                else if c = CHR ''e'' \<or> c = CHR ''E'' then Some NExpMark else None
      | NDot \<Rightarrow> if is_digit c then Some NFrac else None
      | NFrac \<Rightarrow> if is_digit c then Some NFrac
                 else if c = CHR ''e'' \<or> c = CHR ''E'' then Some NExpMark else None
      | NExpMark \<Rightarrow> if is_digit c then Some NExp
                    else if c = CHR ''+'' \<or> c = CHR ''-'' then Some NExpSign else None
      | NExpSign \<Rightarrow> if is_digit c then Some NExp else None
      | NExp \<Rightarrow> if is_digit c then Some NExp else None)"

text \<open>One character. A number ends at the first character that does not continue it.\<close>

fun decoder_step :: "config \<Rightarrow> char \<Rightarrow> config option" where
  "decoder_step (Config Between e st) c = outside_token e st c"
| "decoder_step (Config (InString s) e st) c =
     (if c = CHR 0x22 then close_string s e st
      else if c = CHR 0x5C then Some (Config (InEscape s) e st)
      else if (of_char c :: nat) < 32 then None
      else Some (Config (InString (s @ [c])) e st))"
| "decoder_step (Config (InEscape s) e st) c =
     (if c = CHR ''u'' then Some (Config (InUnicode s []) e st)
      else (case unescape c of
              None \<Rightarrow> None
            | Some d \<Rightarrow> Some (Config (InString (s @ [d])) e st)))"
| "decoder_step (Config (InUnicode s ds) e st) c =
     (case hex_value c of
        None \<Rightarrow> None
      | Some d \<Rightarrow>
          if length ds < 3 then Some (Config (InUnicode s (ds @ [d])) e st)
          else (let n = foldl (\<lambda>a b. 16 * a + b) 0 (ds @ [d]) in
                if n < 256 then Some (Config (InString (s @ [char_of n])) e st) else None))"
| "decoder_step (Config (InNumber ns lexeme) e st) c =
     (if ns = NMinus \<and> c = CHR ''I''
      then Some (Config (InLiteral (JNumber ''-Infinity'') ''nfinity'') e st)
      else (case number_next ns c of
              Some ns' \<Rightarrow> Some (Config (InNumber ns' (lexeme @ [c])) e st)
            | None \<Rightarrow>
                if number_complete ns
                then (case deliver (JNumber lexeme) st of
                        Some (Config l e' st') \<Rightarrow> outside_token e' st' c
                      | None \<Rightarrow> None)
                else None))"
| "decoder_step (Config (InLiteral v rest) e st) c =
     (case rest of
        [] \<Rightarrow> None
      | r # rs \<Rightarrow>
          if c \<noteq> r then None
          else if rs = [] then deliver v st
          else Some (Config (InLiteral v rs) e st))"

fun decoder_run :: "config \<Rightarrow> string \<Rightarrow> config option" where
  "decoder_run q [] = Some q"
| "decoder_run q (c # cs) =
     (case decoder_step q c of None \<Rightarrow> None | Some q' \<Rightarrow> decoder_run q' cs)"

text \<open>
  At the end of the text: the value is complete, or the text is a number and ends with
  it.
\<close>

definition decoder_result :: "config \<Rightarrow> json option" where
  "decoder_result q =
     (case q of
        Config Between (EEnd v) [] \<Rightarrow> Some v
      | Config (InNumber ns lexeme) e [] \<Rightarrow>
          if number_complete ns \<and> e = EValue then Some (JNumber lexeme) else None
      | _ \<Rightarrow> None)"

definition json_loads :: "string \<Rightarrow> json option" where
  "json_loads text =
     (case decoder_run (Config Between EValue []) text of
        None \<Rightarrow> None
      | Some q \<Rightarrow> decoder_result q)"

text \<open>
  From the value read to the checkpoint. \<^verbatim>\<open>dict.get\<close>: of two members with the same key
  the later one counts. The program reads the list under \<^verbatim>\<open>completed_providers\<close> only
  and takes the empty list when the key is missing; a value that is not an object makes
  \<^verbatim>\<open>.get\<close> raise, which is caught. A list of strings is what the program writes there;
  other values under that key are outside the model, which gives \<open>None\<close> for them.
\<close>

definition dict_lookup :: "(string \<times> json) list \<Rightarrow> string \<Rightarrow> json option" where
  "dict_lookup ms k = map_of (rev ms) k"

fun as_strings :: "json list \<Rightarrow> string list option" where
  "as_strings [] = Some []"
| "as_strings (JString s # vs) = map_option ((#) s) (as_strings vs)"
| "as_strings (v # vs) = None"

fun digits_value :: "nat \<Rightarrow> string \<Rightarrow> nat" where
  "digits_value a [] = a"
| "digits_value a (c # cs) = digits_value (10 * a + (of_char c - 48)) cs"

definition as_text :: "json option \<Rightarrow> string" where
  "as_text v = (case v of Some (JString s) \<Rightarrow> s | _ \<Rightarrow> [])"

definition as_count :: "json option \<Rightarrow> nat" where
  "as_count v =
     (case v of Some (JNumber s) \<Rightarrow> if list_all is_digit s then digits_value 0 s else 0
              | _ \<Rightarrow> 0)"

definition as_checkpoint :: "json \<Rightarrow> checkpoint_data option" where
  "as_checkpoint v =
     (case v of
        JObject ms \<Rightarrow>
          (case (case dict_lookup ms ''completed_providers'' of
                   None \<Rightarrow> Some []
                 | Some (JArray vs) \<Rightarrow> as_strings vs
                 | Some other \<Rightarrow> None) of
             None \<Rightarrow> None
           | Some names \<Rightarrow>
               Some \<lparr>ck_completed_providers = names,
                     ck_last_updated = as_text (dict_lookup ms ''last_updated''),
                     ck_total_games_so_far = as_count (dict_lookup ms ''total_games_so_far''),
                     ck_successful_providers =
                       as_count (dict_lookup ms ''successful_providers'')\<rparr>)
      | other \<Rightarrow> None)"

definition checkpoint_json_load :: "string \<Rightarrow> checkpoint_data option" where
  "checkpoint_json_load text =
     (case json_loads text of None \<Rightarrow> None | Some v \<Rightarrow> as_checkpoint v)"

subsection \<open>main\<close>

definition providers :: "(string \<times> string) list" where
  "providers =
     [
      (''https://roobet.com/casino/category/slots?providers=Ace+Roll&sort=pop_desc'',
       ''Ace Roll''),
      (''https://roobet.com/casino/category/slots?providers=Alchemy+Gaming&sort=pop_desc'',
       ''Alchemy Gaming''),
      (''https://roobet.com/casino/category/slots?providers=All41&sort=pop_desc'',
       ''All41''),
      (''https://roobet.com/casino/category/slots?providers=Bitpunch&sort=pop_desc'',
       ''Bitpunch''),
      (''https://roobet.com/casino/category/slots?providers=Boomerang+Studios&sort=pop_desc'',
       ''Boomerang Studios''),
      (''https://roobet.com/casino/category/slots?providers=Buck+Stakes+Entertainment&sort=pop_desc'',
       ''Buck Stakes Entertainment''),
      (''https://roobet.com/casino/category/slots?providers=Clawbuster&sort=pop_desc'',
       ''Clawbuster''),
      (''https://roobet.com/casino/category/slots?providers=Degen+Studios&sort=pop_desc'',
       ''Degen Studios''),
      (''https://roobet.com/casino/category/slots?providers=Electric+Elephant&sort=pop_desc'',
       ''Electric Elephant''),
      (''https://roobet.com/casino/category/slots?providers=Four+Leaf+Gaming&sort=pop_desc'',
       ''Four Leaf Gaming''),
      (''https://roobet.com/casino/category/slots?providers=Foxium&sort=pop_desc'',
       ''Foxium''),
      (''https://roobet.com/casino/category/slots?providers=Gameburger&sort=pop_desc'',
       ''Gameburger''),
      (''https://roobet.com/casino/category/slots?providers=Gaming+Corps&sort=pop_desc'',
       ''Gaming Corps''),
      (''https://roobet.com/casino/category/slots?providers=Iron+Dog+Studio&sort=pop_desc'',
       ''Iron Dog Studio''),
      (''https://roobet.com/casino/category/slots?providers=irondogstudio&sort=pop_desc'',
       ''irondogstudio''),
      (''https://roobet.com/casino/category/slots?providers=Just+For+The+Win&sort=pop_desc'',
       ''Just For The Win''),
      (''https://roobet.com/casino/category/slots?providers=Kalamba+Games&sort=pop_desc'',
       ''Kalamba Games''),
      (''https://roobet.com/casino/category/slots?providers=Kitsune+Gaming+Studios&sort=pop_desc'',
       ''Kitsune Gaming Studios''),
      (''https://roobet.com/casino/category/slots?providers=Microgaming&sort=pop_desc'',
       ''Microgaming''),
      (''https://roobet.com/casino/category/slots?providers=Neon+Valley+Studios&sort=pop_desc'',
       ''Neon Valley Studios''),
      (''https://roobet.com/casino/category/slots?providers=Northern+Lights+Gaming&sort=pop_desc'',
       ''Northern Lights Gaming''),
      (''https://roobet.com/casino/category/slots?providers=NowNow+Gaming&sort=pop_desc'',
       ''NowNow Gaming''),
      (''https://roobet.com/casino/category/slots?providers=Old+Skool&sort=pop_desc'',
       ''Old Skool''),
      (''https://roobet.com/casino/category/slots?providers=Reelplay&sort=pop_desc'',
       ''Reelplay''),
      (''https://roobet.com/casino/category/slots?providers=Slingshot+Studios&sort=pop_desc'',
       ''Slingshot Studios''),
      (''https://roobet.com/casino/category/slots?providers=SpinOn&sort=pop_desc'',
       ''SpinOn''),
      (''https://roobet.com/casino/category/slots?providers=SpinPlay+Games&sort=pop_desc'',
       ''SpinPlay Games''),
      (''https://roobet.com/casino/category/slots?providers=Stormcraft&sort=pop_desc'',
       ''Stormcraft''),
      (''https://roobet.com/casino/category/slots?providers=Triple+Edge&sort=pop_desc'',
       ''Triple Edge''),
      (''https://roobet.com/casino/category/slots?providers=Trusty+Gaming&sort=pop_desc'',
       ''Trusty Gaming''),
      (''https://roobet.com/casino/category/slots?providers=Yggdrasil&sort=pop_desc'',
       ''Yggdrasil'')
     ]"

text \<open>
  What a run does to the outside, in order. \<open>Skipped\<close> is the message of line 239;
  \<open>CloseAllChrome\<close> the call of \<^verbatim>\<open>close_all_chrome\<close>, with the processes it finds
  running; \<open>ScrapeSingleProvider\<close> the call of that function; \<open>SaveProviderData\<close> the
  call of \<^verbatim>\<open>save_provider_data\<close> that wrote the three output files of a provider and
  \<open>SaveProviderDataRaises\<close> the call that raised; \<open>WriteCheckpoint\<close> the statement of
  lines 270 and 271 that rewrites the checkpoint file, reached with this checkpoint;
  \<open>Sleep\<close> the wait of line 279.
\<close>

datatype event =
    Skipped string
  | CloseAllChrome "process list"
  | ScrapeSingleProvider string string
  | SaveProviderData string result
  | SaveProviderDataRaises string result string
  | WriteCheckpoint checkpoint_data
  | Sleep nat

text \<open>
  What the disk does with the writes of a pass, if the pass comes to them:
  \<^verbatim>\<open>save_provider_data\<close> raises; or it returns and \<^verbatim>\<open>open(checkpoint_file, 'w')\<close>
  raises; or the file is opened and the write ends after some characters, by an
  exception or with the process; or both writes complete. Nothing in \<^verbatim>\<open>main\<close> catches
  these exceptions.
\<close>

datatype disk = SaveRaises string | OpenRaises string | WriteStops nat string | Persisted

text \<open>
  The variables of \<^verbatim>\<open>main\<close>, the text of the checkpoint file on disk, and \<open>crashed\<close>:
  the exception that ended the run, if there was one.
\<close>

record run_state =
  completed_providers :: "string list"
  total_games :: nat
  successful_providers :: nat
  checkpoint_on_disk :: "string option"
  crashed :: "string option"

text \<open>
  One pass through the body of the loop of line 236, for the provider at position \<open>i\<close>:
  the events of the pass and the state after it. \<open>procs i\<close> are the processes that run
  when the pass calls \<^verbatim>\<open>close_all_chrome\<close>, \<open>chrome i\<close> is the browser of the pass,
  \<open>disk i\<close> what the disk does with its writes, \<open>now i\<close> the time stamp
  \<^verbatim>\<open>datetime.now().isoformat()\<close> of its checkpoint.
\<close>

definition main_step ::
  "(nat \<Rightarrow> process list) \<Rightarrow> (nat \<Rightarrow> string \<Rightarrow> page raises) \<Rightarrow> (nat \<Rightarrow> disk) \<Rightarrow> (nat \<Rightarrow> string)
   \<Rightarrow> nat \<Rightarrow> string \<times> string \<Rightarrow> run_state \<Rightarrow> event list \<times> run_state" where
  "main_step procs chrome disk now i provider st =
     (case provider of (provider_url, provider_name) \<Rightarrow>
        if provider_name \<in> set (completed_providers st) then ([Skipped provider_name], st)
        else
          (case scrape_single_provider (chrome i) provider_url provider_name of
             Inl e \<Rightarrow>
               ([CloseAllChrome (procs i), ScrapeSingleProvider provider_url provider_name],
                st\<lparr>crashed := Some e\<rparr>)
           | Inr result \<Rightarrow>
               if success result then
                 (let st' = st\<lparr>total_games := total_games st + length (games result),
                               successful_providers := successful_providers st + 1,
                               completed_providers := completed_providers st @ [provider_name]\<rparr>;
                      checkpoint =
                        \<lparr>ck_completed_providers = completed_providers st',
                         ck_last_updated = now i,
                         ck_total_games_so_far = total_games st',
                         ck_successful_providers = successful_providers st'\<rparr>
                  in case disk i of
                       SaveRaises e \<Rightarrow>
                         ([CloseAllChrome (procs i),
                           ScrapeSingleProvider provider_url provider_name,
                           SaveProviderDataRaises provider_name result e],
                          st\<lparr>crashed := Some e\<rparr>)
                     | OpenRaises e \<Rightarrow>
                         ([CloseAllChrome (procs i),
                           ScrapeSingleProvider provider_url provider_name,
                           SaveProviderData provider_name result, WriteCheckpoint checkpoint],
                          st'\<lparr>crashed := Some e\<rparr>)
                     | WriteStops k e \<Rightarrow>
                         ([CloseAllChrome (procs i),
                           ScrapeSingleProvider provider_url provider_name,
                           SaveProviderData provider_name result, WriteCheckpoint checkpoint],
                          st'\<lparr>checkpoint_on_disk := interrupted_write (json_dumps checkpoint) k,
                              crashed := Some e\<rparr>)
                     | Persisted \<Rightarrow>
                         ([CloseAllChrome (procs i),
                           ScrapeSingleProvider provider_url provider_name,
                           SaveProviderData provider_name result, WriteCheckpoint checkpoint,
                           Sleep 5],
                          st'\<lparr>checkpoint_on_disk := Some (json_dumps checkpoint)\<rparr>))
               else
                 ([CloseAllChrome (procs i), ScrapeSingleProvider provider_url provider_name,
                   Sleep 5],
                  st)))"

fun main_loop ::
  "(nat \<Rightarrow> process list) \<Rightarrow> (nat \<Rightarrow> string \<Rightarrow> page raises) \<Rightarrow> (nat \<Rightarrow> disk) \<Rightarrow> (nat \<Rightarrow> string)
   \<Rightarrow> nat \<Rightarrow> (string \<times> string) list \<Rightarrow> run_state \<Rightarrow> event list \<times> run_state" where
  "main_loop procs chrome disk now i [] st = ([], st)"
| "main_loop procs chrome disk now i (provider # rest) st =
     (case main_step procs chrome disk now i provider st of
        (evs, st') \<Rightarrow>
          if crashed st' \<noteq> None then (evs, st')
          else (case main_loop procs chrome disk now (i + 1) rest st' of
                  (evs', st'') \<Rightarrow> (evs @ evs', st'')))"

text \<open>
  A run over a list of providers from a checkpoint file: the counters start at zero
  (lines 233 and 234), the completed names are those loaded.
\<close>

definition run_batch ::
  "(string \<Rightarrow> checkpoint_data option) \<Rightarrow> string option \<Rightarrow> (nat \<Rightarrow> process list)
   \<Rightarrow> (nat \<Rightarrow> string \<Rightarrow> page raises) \<Rightarrow> (nat \<Rightarrow> disk) \<Rightarrow> (nat \<Rightarrow> string)
   \<Rightarrow> (string \<times> string) list \<Rightarrow> event list \<times> run_state" where
  "run_batch json_load checkpoint_file procs chrome disk now targets =
     main_loop procs chrome disk now 1 targets
       \<lparr>completed_providers = load_checkpoint json_load checkpoint_file,
        total_games = 0, successful_providers = 0, checkpoint_on_disk = checkpoint_file,
        crashed = None\<rparr>"

definition main ::
  "(string \<Rightarrow> checkpoint_data option) \<Rightarrow> string option \<Rightarrow> (nat \<Rightarrow> process list)
   \<Rightarrow> (nat \<Rightarrow> string \<Rightarrow> page raises) \<Rightarrow> (nat \<Rightarrow> disk) \<Rightarrow> (nat \<Rightarrow> string)
   \<Rightarrow> event list \<times> run_state" where
  "main json_load checkpoint_file procs chrome disk now =
     run_batch json_load checkpoint_file procs chrome disk now providers"

subsection \<open>Reading a trace\<close>

text \<open>
  The checkpoints whose write a run came to, in order, and the numbers of games of the
  results saved during it, in order.
\<close>

fun checkpoints_written :: "event list \<Rightarrow> checkpoint_data list" where
  "checkpoints_written [] = []"
| "checkpoints_written (WriteCheckpoint checkpoint # es) = checkpoint # checkpoints_written es"
| "checkpoints_written (e # es) = checkpoints_written es"

fun games_saved :: "event list \<Rightarrow> nat list" where
  "games_saved [] = []"
| "games_saved (SaveProviderData provider_name result # es) =
     length (games result) # games_saved es"
| "games_saved (e # es) = games_saved es"





subsection \<open>Sample inputs\<close>

text \<open>
  Concrete inputs at which the properties below are evaluated: a page with two games
  whose button is found twice, a page that does not load, a browser that shows the
  second for one URL and the first for every other, the processes that run, a disk on
  which every write completes, and a clock.
\<close>

definition sample_anchor :: "string \<Rightarrow> anchor_element" where
  "sample_anchor title =
     \<lparr>img = Inr \<lparr>alt = Inr (Some title), src = Inr (Some ''https://cdn/a.png'')\<rparr>,
      href = Inr (Some ''/game'')\<rparr>"

definition sample_page :: page where
  "sample_page =
     \<lparr>get_error = None, load_more = (\<lambda>k. k < 2),
      anchors = Inr [sample_anchor ''A'', sample_anchor ''B''],
      page_source = Inr ''<html>'', quit_error = None\<rparr>"

definition sample_broken_page :: page where
  "sample_broken_page =
     \<lparr>get_error = Some ''net::ERR_NAME_NOT_RESOLVED'', load_more = (\<lambda>k. False),
      anchors = Inr [], page_source = Inr [], quit_error = None\<rparr>"

definition sample_chrome :: "nat \<Rightarrow> string \<Rightarrow> page raises" where
  "sample_chrome i provider_url =
     (if provider_url = ''https://x/broken'' then Inr sample_broken_page else Inr sample_page)"

definition sample_procs :: "nat \<Rightarrow> process list" where
  "sample_procs i =
     [\<lparr>pid = 1, proc_name = Some ''systemd'', kill_error = None\<rparr>,
      \<lparr>pid = 40, proc_name = Some ''Google Chrome Helper'', kill_error = None\<rparr>,
      \<lparr>pid = 41, proc_name = Some ''chromedriver'', kill_error = None\<rparr>]"

definition sample_disk :: "nat \<Rightarrow> disk" where
  "sample_disk i = Persisted"

definition sample_now :: "nat \<Rightarrow> string" where
  "sample_now i = ''2025-01-01T00:00:00''"

definition sample_result :: result where
  "sample_result =
     \<lparr>success = True, error = None,
      games = [\<lparr>index = 1, name = ''A'', image_url = ''https://cdn/a.png'', game_link = ''/game''\<rparr>,
               \<lparr>index = 2, name = ''B'', image_url = ''https://cdn/a.png'', game_link = ''/game''\<rparr>],
      click_count = 2, html = ''<html>''\<rparr>"

text \<open>
  Two checkpoints and the documents \<^verbatim>\<open>json.dump\<close> writes for them: the file as a first
  run left it, and the document a resumed run writes over it.
\<close>

definition sample_old_checkpoint :: checkpoint_data where
  "sample_old_checkpoint =
     \<lparr>ck_completed_providers = [''Ace Roll''], ck_last_updated = ''2025-01-01T00:00:00'',
      ck_total_games_so_far = 2, ck_successful_providers = 1\<rparr>"

definition sample_new_checkpoint :: checkpoint_data where
  "sample_new_checkpoint =
     \<lparr>ck_completed_providers = [''Ace Roll'', ''All41''],
      ck_last_updated = ''2025-01-01T00:00:00'',
      ck_total_games_so_far = 2, ck_successful_providers = 1\<rparr>"

definition sample_old_doc :: string where
  \<open>sample_old_doc =
     concat (map (\<lambda>line. line @ [CHR 0x0A])
       [''{'',
        ''  "completed_providers": ['',
        ''    "Ace Roll"'',
        ''  ],'',
        ''  "last_updated": "2025-01-01T00:00:00",'',
        ''  "total_games_so_far": 2,'',
        ''  "successful_providers": 1'']) @ ''}''\<close>

definition sample_new_doc :: string where
  \<open>sample_new_doc =
     concat (map (\<lambda>line. line @ [CHR 0x0A])
       [''{'',
        ''  "completed_providers": ['',
        ''    "Ace Roll",'',
        ''    "All41"'',
        ''  ],'',
        ''  "last_updated": "2025-01-01T00:00:00",'',
        ''  "total_games_so_far": 2,'',
        ''  "successful_providers": 1'']) @ ''}''\<close>


section \<open>Properties of the URL normalisation\<close>

subsection \<open>Replacement of a pattern\<close>

lemma replace_match:
  "old \<noteq> [] \<Longrightarrow> prefix old s \<Longrightarrow> replace old new s = new @ replace old new (drop (length old) s)"
  by (cases s) auto

lemma replace_skip:
  "old \<noteq> [] \<Longrightarrow> \<not> prefix old (c # cs) \<Longrightarrow> replace old new (c # cs) = c # replace old new cs"
  by simp

lemma replace_absent: "old \<noteq> [] \<Longrightarrow> \<not> sublist old s \<Longrightarrow> replace old new s = s"
  by (induction s) (auto simp: sublist_Cons_right)

lemma sublist_append_cases:
  "sublist p (w @ t) \<Longrightarrow> starts_within p w \<or> sublist p t"
proof (induction w)
  case Nil
  then show ?case by simp
next
  case (Cons x xs)
  from Cons.prems have "prefix p (x # xs @ t) \<or> sublist p (xs @ t)"
    by (simp add: sublist_Cons_right)
  then show ?case
  proof
    assume "prefix p (x # xs @ t)"
    then have "prefix p ((x # xs) @ t)" by simp
    then have "prefix p (x # xs) \<or> prefix (x # xs) p"
      unfolding prefix_append by (auto simp: prefix_def)
    then show ?thesis by auto
  next
    assume "sublist p (xs @ t)"
    with Cons.IH show ?thesis by auto
  qed
qed

lemma replace_prefix_copy:
  assumes "old = h # ot" "new = h # nt"
  shows "prefix p (replace old new s) \<Longrightarrow> h \<notin> set p \<Longrightarrow> prefix p s"
proof (induction s arbitrary: p rule: length_induct)
  case (1 s)
  from assms have ne: "old \<noteq> []" by simp
  show ?case
  proof (cases p)
    case Nil
    then show ?thesis by simp
  next
    case (Cons x p')
    show ?thesis
    proof (cases s)
      case Nil
      with "1.prems" ne Cons show ?thesis by simp
    next
      case (Cons c cs) note s = this
      show ?thesis
      proof (cases "prefix old s")
        case True
        from replace_match [OF ne True] assms
        have "replace old new s = h # (nt @ replace old new (drop (length old) s))" by simp
        with "1.prems" \<open>p = x # p'\<close> show ?thesis by simp
      next
        case False
        with s ne have eq: "replace old new s = c # replace old new cs" by simp
        with "1.prems" \<open>p = x # p'\<close> have "x = c" "prefix p' (replace old new cs)" "h \<notin> set p'"
          by auto
        with "1.IH" s have "prefix p' cs" by simp
        with \<open>x = c\<close> s \<open>p = x # p'\<close> show ?thesis by simp
      qed
    qed
  qed
qed


lemma replace_removes:
  assumes "old = h # ot" "h \<notin> set ot" "new = h # nt" "\<not> starts_within old new"
  shows "\<not> sublist old (replace old new s)"
proof (induction s rule: length_induct)
  case (1 s)
  from assms have ne: "old \<noteq> []" by simp
  show ?case
  proof (cases s)
    case Nil
    with ne show ?thesis by simp
  next
    case (Cons c cs)
    show ?thesis
    proof (cases "prefix old s")
      case True
      with ne have "length (drop (length old) s) < length s"
        using Cons by simp
      with "1.IH" have "\<not> sublist old (replace old new (drop (length old) s))" by simp
      with sublist_append_cases assms(4)
      have "\<not> sublist old (new @ replace old new (drop (length old) s))" by blast
      with replace_match [OF ne True] show ?thesis by simp
    next
      case False
      with Cons ne have eq: "replace old new s = c # replace old new cs" by simp
      from "1.IH" Cons have IH: "\<not> sublist old (replace old new cs)" by simp
      have "\<not> prefix old (c # replace old new cs)"
      proof
        assume "prefix old (c # replace old new cs)"
        with assms(1) have "h = c" "prefix ot (replace old new cs)" by auto
        with replace_prefix_copy [OF assms(1) assms(3)] assms(2)
        have "prefix ot cs" by blast
        with \<open>h = c\<close> assms(1) Cons have "prefix old s" by simp
        with False show False by simp
      qed
      with IH eq show ?thesis by (simp add: sublist_Cons_right)
    qed
  qed
qed

lemma replace_no_new_occurrence:
  assumes "old = h # ot" "new = h # nt" "h \<notin> set (tl p)" "\<not> starts_within p new"
  shows "sublist p (replace old new s) \<Longrightarrow> sublist p s"
proof (induction s rule: length_induct)
  case (1 s)
  from assms have ne: "old \<noteq> []" by simp
  show ?case
  proof (cases s)
    case Nil
    with ne "1.prems" show ?thesis by simp
  next
    case (Cons c cs)
    show ?thesis
    proof (cases "prefix old s")
      case True
      with ne have len: "length (drop (length old) s) < length s"
        using Cons by simp
      from replace_match [OF ne True] "1.prems"
      have "sublist p (new @ replace old new (drop (length old) s))" by simp
      with sublist_append_cases assms(4)
      have "sublist p (replace old new (drop (length old) s))" by blast
      with "1.IH" len have "sublist p (drop (length old) s)" by simp
      then show ?thesis
        using sublist_drop sublist_order.order_trans by blast
    next
      case False
      with Cons ne have eq: "replace old new s = c # replace old new cs" by simp
      with "1.prems" have "prefix p (c # replace old new cs) \<or> sublist p (replace old new cs)"
        by (simp add: sublist_Cons_right)
      then show ?thesis
      proof
        assume a: "prefix p (c # replace old new cs)"
        show ?thesis
        proof (cases p)
          case Nil
          then show ?thesis by simp
        next
          case (Cons x p')
          with a have "x = c" "prefix p' (replace old new cs)" by auto
          moreover from Cons assms(3) have "h \<notin> set p'" by simp
          ultimately have "prefix p' cs"
            using replace_prefix_copy [OF assms(1) assms(2)] by blast
          with Cons \<open>x = c\<close> \<open>s = c # cs\<close> have "prefix p s" by simp
          then show ?thesis by blast
        qed
      next
        assume "sublist p (replace old new cs)"
        with "1.IH" Cons have "sublist p cs" by simp
        with Cons show ?thesis by (simp add: sublist_Cons_right)
      qed
    qed
  qed
qed

lemma replace_keeps_prefix:
  "prefix p s \<Longrightarrow> \<not> starts_within old p \<Longrightarrow> prefix p (replace old new s)"
proof (induction p arbitrary: s)
  case Nil
  then show ?case by simp
next
  case (Cons x p')
  from Cons.prems(1) obtain s' where s: "s = x # s'" and p': "prefix p' s'"
    by (cases s) auto
  from Cons.prems(2) have no: "\<not> prefix old (x # p')" "\<not> prefix (x # p') old"
    and rest: "\<not> starts_within old p'" by auto
  from no(1) have ne: "old \<noteq> []" by auto
  have "\<not> prefix old s"
  proof
    assume "prefix old s"
    with Cons.prems(1) have "prefix old (x # p') \<or> prefix (x # p') old"
      using prefix_same_cases by blast
    with no show False by blast
  qed
  with s ne have "replace old new s = x # replace old new s'" by simp
  with Cons.IH [OF p' rest] show ?case by simp
qed

lemma replace_keeps_occurrence:
  assumes "p \<noteq> []" "\<not> starts_within old p" "\<not> starts_within p old"
  shows "sublist p s \<Longrightarrow> sublist p (replace old new s)"
proof (induction s rule: length_induct)
  case (1 s)
  from assms(1,2) have ne: "old \<noteq> []" by (cases p) auto
  show ?case
  proof (cases s)
    case Nil
    with "1.prems" assms(1) show ?thesis by simp
  next
    case (Cons c cs)
    show ?thesis
    proof (cases "prefix old s")
      case True
      with ne have len: "length (drop (length old) s) < length s"
        using Cons by simp
      from True have "s = old @ drop (length old) s"
        by (metis append_take_drop_id prefix_def append_eq_conv_conj)
      with "1.prems" have "sublist p (old @ drop (length old) s)" by simp
      with sublist_append_cases assms(3) have "sublist p (drop (length old) s)" by blast
      with "1.IH" len have "sublist p (replace old new (drop (length old) s))" by simp
      then have "sublist p (new @ replace old new (drop (length old) s))"
        by (metis sublist_order.order_trans suffix_imp_sublist suffix_appendI suffix_order.order_refl)
      with replace_match [OF ne True] show ?thesis by simp
    next
      case False
      with Cons ne have eq: "replace old new s = c # replace old new cs" by simp
      from "1.prems" Cons have "prefix p s \<or> sublist p cs"
        by (simp add: sublist_Cons_right)
      then show ?thesis
      proof
        assume "prefix p s"
        from replace_keeps_prefix [OF this assms(2)] show ?thesis by blast
      next
        assume "sublist p cs"
        with "1.IH" Cons have "sublist p (replace old new cs)" by simp
        with eq show ?thesis by (simp add: sublist_Cons_right)
      qed
    qed
  qed
qed

lemma replace_occurrence:
  assumes "old = h # ot" "h \<notin> set ot"
  shows "replace old new (a @ old @ b) = replace old new a @ new @ replace old new b"
proof (induction a rule: length_induct)
  case (1 a)
  from assms have ne: "old \<noteq> []" by simp
  show ?case
  proof (cases a)
    case Nil
    have "prefix old (old @ b)" by simp
    from replace_match [OF ne this] Nil ne show ?thesis by simp
  next
    case (Cons c cs)
    show ?thesis
    proof (cases "prefix old a")
      case True
      then obtain a' where a: "a = old @ a'" by (auto simp: prefix_def)
      with ne have len: "length a' < length a" by simp
      have "prefix old (a @ old @ b)" using a by simp
      from replace_match [OF ne this] a
      have e1: "replace old new (a @ old @ b) = new @ replace old new (a' @ old @ b)" by simp
      from "1.IH" len
      have e2: "replace old new (a' @ old @ b) = replace old new a' @ new @ replace old new b"
        by simp
      from replace_match [OF ne True] a
      have e3: "replace old new a = new @ replace old new a'" by simp
      show ?thesis by (simp add: e1 e2 e3)
    next
      case False
      have np: "\<not> prefix old (a @ old @ b)"
      proof
        assume "prefix old (a @ old @ b)"
        then have "prefix old a \<or> (\<exists>us. old = a @ us \<and> prefix us (old @ b))"
          by (simp only: prefix_append)
        with False obtain us where us: "old = a @ us" "prefix us (old @ b)"
          by blast
        with False have "us \<noteq> []" by auto
        with us(2) assms(1) have "hd us = h" by (cases us) auto
        with \<open>us \<noteq> []\<close> have "h \<in> set us" by (cases us) auto
        with us(1) Cons assms(1) have "h \<in> set ot" by auto
        with assms(2) show False by simp
      qed
      from Cons have "a @ old @ b = c # (cs @ old @ b)" by simp
      with np ne have e1: "replace old new (a @ old @ b) = c # replace old new (cs @ old @ b)"
        by simp
      from "1.IH" Cons
      have e2: "replace old new (cs @ old @ b) = replace old new cs @ new @ replace old new b"
        by simp
      from False Cons ne have e3: "replace old new a = c # replace old new cs" by simp
      show ?thesis by (simp add: e1 e2 e3)
    qed
  qed
qed


lemmas pattern_defs = bad_quality_def good_quality_def good_pattern_def better_pattern_def

lemma bad_quality_head: "bad_quality = CHR ''q'' # ''uality=20,blur=150''"
  by (simp add: pattern_defs)

lemma bad_quality_tail: "CHR ''q'' \<notin> set ''uality=20,blur=150''"
  by simp

lemma good_quality_head: "good_quality = CHR ''q'' # ''uality=90,blur=0''"
  by (simp add: pattern_defs)

lemma good_pattern_head:
  "good_pattern = CHR ''w'' # ''idth=195,height=260,quality=90,blur=0,fit=cover''"
  by (simp add: pattern_defs)

lemma good_pattern_tail: "CHR ''w'' \<notin> set ''idth=195,height=260,quality=90,blur=0,fit=cover''"
  by simp

lemma better_pattern_head:
  "better_pattern = CHR ''w'' # ''idth=400,height=600,quality=95,blur=0,fit=contain''"
  by (simp add: pattern_defs)

lemma bad_quality_no_w: "CHR ''w'' \<notin> set (tl bad_quality)"
  by (simp add: pattern_defs)

lemma no_overlap_1: "\<not> starts_within bad_quality good_quality"
  by (simp add: pattern_defs)

lemma no_overlap_2: "\<not> starts_within good_pattern better_pattern"
  by (simp add: pattern_defs)

lemma no_overlap_3: "\<not> starts_within bad_quality better_pattern"
  by (simp add: pattern_defs)

lemma no_overlap_4: "\<not> starts_within bad_quality good_pattern"
  by (simp add: pattern_defs)

lemma no_overlap_5: "\<not> starts_within good_pattern bad_quality"
  by (simp add: pattern_defs)


lemma replace_bad_quality_removes: "\<not> sublist bad_quality (replace bad_quality good_quality u)"
  by (rule replace_removes [OF bad_quality_head bad_quality_tail good_quality_head no_overlap_1])

lemma replace_good_pattern_removes:
  "\<not> sublist good_pattern (replace good_pattern better_pattern u)"
  by (rule replace_removes [OF good_pattern_head good_pattern_tail better_pattern_head no_overlap_2])

lemma replace_good_pattern_no_bad_quality:
  "sublist bad_quality (replace good_pattern better_pattern u) \<Longrightarrow> sublist bad_quality u"
  by (rule replace_no_new_occurrence
        [OF good_pattern_head better_pattern_head bad_quality_no_w no_overlap_3])

lemma fix_as_replacements:
  "fix_image_url_quality u = replace good_pattern better_pattern (replace bad_quality good_quality u)"
  by (cases u) (simp_all add: fix_image_url_quality_def pattern_defs)

lemma fix_no_bad_quality: "\<not> sublist bad_quality (fix_image_url_quality u)"
  unfolding fix_as_replacements
  using replace_good_pattern_no_bad_quality replace_bad_quality_removes by blast

lemma fix_no_good_pattern: "\<not> sublist good_pattern (fix_image_url_quality u)"
  unfolding fix_as_replacements by (rule replace_good_pattern_removes)

lemma bad_quality_nonempty: "bad_quality \<noteq> []"
  by (simp add: pattern_defs)

lemma good_pattern_nonempty: "good_pattern \<noteq> []"
  by (simp add: pattern_defs)

lemma fix_unchanged:
  "\<not> sublist bad_quality u \<Longrightarrow> \<not> sublist good_pattern u \<Longrightarrow> fix_image_url_quality u = u"
  unfolding fix_as_replacements
  by (simp add: replace_absent bad_quality_nonempty good_pattern_nonempty)

lemma fix_upgrades:
  assumes "sublist good_pattern u"
  shows "sublist better_pattern (fix_image_url_quality u)"
proof -
  from assms have "sublist good_pattern (replace bad_quality good_quality u)"
    by (rule replace_keeps_occurrence [OF good_pattern_nonempty no_overlap_4 no_overlap_5])
  then obtain a b where "replace bad_quality good_quality u = a @ good_pattern @ b"
    by (auto simp: sublist_def)
  then have "fix_image_url_quality u =
      replace good_pattern better_pattern a @ better_pattern @ replace good_pattern better_pattern b"
    unfolding fix_as_replacements
    by (simp add: replace_occurrence [OF good_pattern_head good_pattern_tail])
  then show ?thesis by simp
qed

text \<open>
  Claim C10. Normalising twice is the same as normalising once: the result of
  \<^verbatim>\<open>fix_image_url_quality\<close> contains neither search pattern, so a second call finds
  nothing to replace.
\<close>

theorem fix_image_url_quality_idempotent:
  "fix_image_url_quality (fix_image_url_quality u) = fix_image_url_quality u"
  by (rule fix_unchanged [OF fix_no_bad_quality fix_no_good_pattern])

text \<open>
  Claim C4, as stated, fails: a URL can contain \<^verbatim>\<open>quality=20,blur=150\<close> while its result
  does not contain \<^verbatim>\<open>quality=90,blur=0\<close>. Where the first replacement completes the
  pattern of the second, the second rewrites it again, to \<^verbatim>\<open>quality=95\<close>.
\<close>

theorem bad_quality_upgraded_further:
  "sublist bad_quality ''width=195,height=260,quality=20,blur=150,fit=cover''
   \<and> fix_image_url_quality ''width=195,height=260,quality=20,blur=150,fit=cover''
       = ''width=400,height=600,quality=95,blur=0,fit=contain''
   \<and> \<not> sublist good_quality
         (fix_image_url_quality ''width=195,height=260,quality=20,blur=150,fit=cover'')"
  by (simp add: fix_image_url_quality_def pattern_defs sublist_code)

text \<open>
  Claim C4, amended. \<^verbatim>\<open>fix_image_url_quality\<close> is a function of its argument alone: the
  empty string is returned unchanged, and every URL is taken through the first
  replacement and then the second. The first replacement rewrites each occurrence of
  \<^verbatim>\<open>quality=20,blur=150\<close> to \<^verbatim>\<open>quality=90,blur=0\<close>; that text is in the output in its
  place whenever the result of the first replacement does not contain the pattern of
  the second, and the output never contains \<^verbatim>\<open>quality=20,blur=150\<close>. A URL containing
  \<^verbatim>\<open>width=195,height=260,quality=90,blur=0,fit=cover\<close> has
  \<^verbatim>\<open>width=400,height=600,quality=95,blur=0,fit=contain\<close> in its output and the former
  pattern no longer. A URL containing neither search pattern is returned unchanged.
\<close>

theorem fix_image_url_quality_rules:
  "fix_image_url_quality [] = []
   \<and> fix_image_url_quality u
       = replace good_pattern better_pattern (replace bad_quality good_quality u)
   \<and> replace bad_quality good_quality (a @ bad_quality @ b)
       = replace bad_quality good_quality a @ good_quality @ replace bad_quality good_quality b
   \<and> (\<not> sublist good_pattern (replace bad_quality good_quality (a @ bad_quality @ b))
        \<longrightarrow> fix_image_url_quality (a @ bad_quality @ b)
             = replace bad_quality good_quality a @ good_quality
                 @ replace bad_quality good_quality b)
   \<and> \<not> sublist bad_quality (fix_image_url_quality u)
   \<and> (sublist good_pattern v
        \<longrightarrow> sublist better_pattern (fix_image_url_quality v)
            \<and> \<not> sublist good_pattern (fix_image_url_quality v))
   \<and> (\<not> sublist bad_quality w \<and> \<not> sublist good_pattern w \<longrightarrow> fix_image_url_quality w = w)"
proof -
  have occ: "replace bad_quality good_quality (a @ bad_quality @ b)
       = replace bad_quality good_quality a @ good_quality @ replace bad_quality good_quality b"
    by (rule replace_occurrence [OF bad_quality_head bad_quality_tail])
  have "fix_image_url_quality (a @ bad_quality @ b)
             = replace bad_quality good_quality a @ good_quality
                 @ replace bad_quality good_quality b"
    if "\<not> sublist good_pattern (replace bad_quality good_quality (a @ bad_quality @ b))"
    using that unfolding fix_as_replacements
    by (simp add: replace_absent [OF good_pattern_nonempty] occ)
  moreover have "fix_image_url_quality [] = []"
    by (simp add: fix_image_url_quality_def)
  ultimately show ?thesis
    using occ fix_as_replacements fix_no_bad_quality fix_upgrades fix_no_good_pattern fix_unchanged
    by blast
qed

theorem fix_image_url_quality_rules_witness:
  "fix_image_url_quality ''https://cdn/quality=20,blur=150/a.png''
     = ''https://cdn/quality=90,blur=0/a.png''
   \<and> sublist better_pattern
       (fix_image_url_quality ''https://cdn/width=195,height=260,quality=90,blur=0,fit=cover/a.png'')
   \<and> fix_image_url_quality ''https://cdn/a.png'' = ''https://cdn/a.png''"
  using fix_image_url_quality_rules
    [where a = "''https://cdn/''" and b = "''/a.png''"
       and u = "''https://cdn/quality=20,blur=150/a.png''"
       and v = "''https://cdn/width=195,height=260,quality=90,blur=0,fit=cover/a.png''"
       and w = "''https://cdn/a.png''"]
  by (simp add: pattern_defs sublist_code)

section \<open>Properties of scrape\_single\_provider\<close>

subsection \<open>The Load More loop\<close>

lemma expansion_loop_bounds:
  "c \<le> 50 \<Longrightarrow> fst (expansion_loop b c k) \<le> 50 \<and> snd (expansion_loop b c k) \<le> k + (50 - c)"
proof (induction b c k rule: expansion_loop.induct)
  case (1 b c k)
  show ?case
  proof (cases "c < 50 \<and> b c")
    case True
    with "1.IH" have "fst (expansion_loop b (c + 1) (k + 1)) \<le> 50
        \<and> snd (expansion_loop b (c + 1) (k + 1)) \<le> (k + 1) + (50 - (c + 1))"
      by simp
    with True show ?thesis
      by (subst (1 2) expansion_loop.simps) auto
  next
    case False
    with "1.prems" show ?thesis
      by (subst (1 2) expansion_loop.simps) auto
  qed
qed

lemma expansion_loop_always:
  "c \<le> 50 \<Longrightarrow> \<forall>j. c \<le> j \<and> j < 50 \<longrightarrow> b j \<Longrightarrow> expansion_loop b c k = (50, k + (50 - c))"
proof (induction b c k rule: expansion_loop.induct)
  case (1 b c k)
  show ?case
  proof (cases "c < 50")
    case True
    with "1.prems" have "b c" by simp
    with True "1.IH" "1.prems" have "expansion_loop b (c + 1) (k + 1) = (50, (k + 1) + (50 - (c + 1)))"
      by simp
    with True \<open>b c\<close> show ?thesis
      by (subst expansion_loop.simps) auto
  next
    case False
    with "1.prems" show ?thesis
      by (subst expansion_loop.simps) auto
  qed
qed

lemma scrape_click_count:
  "scrape_single_provider chrome url nm = Inr r \<Longrightarrow> click_count r \<le> 50"
  using expansion_loop_bounds [of 0 _ 0]
  by (auto simp: scrape_single_provider_def scrape_page_def failure_def
      split: sum.splits option.splits)

text \<open>
  Claim C3. The Load More loop always ends, after at most 50 executions of its body and
  with at most 50 clicks, whatever the page does; when the button is found every time,
  it makes exactly 50 clicks in 50 executions. So the \<open>click_count\<close> of every result
  that \<^verbatim>\<open>scrape_single_provider\<close> returns is at most 50 (and, as a natural number, at
  least 0).
\<close>

theorem expansion_bound:
  "fst (expansion_loop button 0 0) \<le> 50
   \<and> snd (expansion_loop button 0 0) \<le> 50
   \<and> ((\<forall>k<50. button k) \<longrightarrow> expansion_loop button 0 0 = (50, 50))
   \<and> (scrape_single_provider chrome url nm = Inr r \<longrightarrow> click_count r \<le> 50)"
  using expansion_loop_bounds [of 0 button 0] expansion_loop_always [of 0 button 0]
    scrape_click_count [of chrome url nm r]
  by auto

theorem expansion_bound_witness:
  "expansion_loop (\<lambda>k. True) 0 0 = (50, 50)
   \<and> scrape_single_provider
        (\<lambda>u. Inr \<lparr>get_error = None, load_more = (\<lambda>k. k < 2), anchors = Inr [],
                   page_source = Inr ''<html>'', quit_error = None\<rparr>) ''https://x'' ''X''
      = Inr \<lparr>success = True, error = None, games = [], click_count = 2, html = ''<html>''\<rparr>
   \<and> (2::nat) \<le> 50"
  using expansion_bound [of "\<lambda>k. True"
      "\<lambda>u. Inr \<lparr>get_error = None, load_more = (\<lambda>k. k < 2), anchors = Inr [],
                   page_source = Inr ''<html>'', quit_error = None\<rparr>" "''https://x''" "''X''"
      "\<lparr>success = True, error = None, games = [], click_count = 2, html = ''<html>''\<rparr>"]
  by (simp add: scrape_single_provider_def scrape_page_def expansion_loop.simps)

subsection \<open>The harvest\<close>

lemma extract_game_raises: "extraction_raises a \<Longrightarrow> \<exists>e. extract_game i a = Inl e"
  by (auto simp: extraction_raises_def extract_game_def isl_def split: sum.splits)

lemma extract_game_returns:
  "\<not> extraction_raises a \<Longrightarrow> \<exists>g. extract_game i a = Inr g \<and> index g = i"
  by (auto simp: extraction_raises_def extract_game_def split: sum.splits)

lemma harvest_append: "harvest i (xs @ ys) = harvest i xs @ harvest (i + length xs) ys"
  by (induction xs arbitrary: i) (auto split: sum.splits)

lemma harvest_raises: "extraction_raises m \<Longrightarrow> harvest i (m # ys) = harvest (i + 1) ys"
  using extract_game_raises [of m i] by auto

lemma harvest_all:
  "\<forall>a\<in>set xs. \<not> extraction_raises a \<Longrightarrow>
   length (harvest i xs) = length xs
   \<and> (\<forall>j<length xs. extract_game (i + j) (xs ! j) = Inr (harvest i xs ! j))
   \<and> map index (harvest i xs) = [i..<i + length xs]"
proof (induction xs arbitrary: i)
  case Nil
  then show ?case by simp
next
  case (Cons a xs)
  from Cons.prems obtain g where g: "extract_game i a = Inr g" "index g = i"
    using extract_game_returns [of a i] by auto
  from Cons.prems have "\<forall>a\<in>set xs. \<not> extraction_raises a" by simp
  from Cons.IH [OF this, of "i + 1"]
  have IH: "length (harvest (i + 1) xs) = length xs"
    "\<forall>j<length xs. extract_game (i + 1 + j) (xs ! j) = Inr (harvest (i + 1) xs ! j)"
    "map index (harvest (i + 1) xs) = [i + 1..<i + 1 + length xs]"
    by auto
  have "extract_game (i + j) ((a # xs) ! j) = Inr (harvest i (a # xs) ! j)"
    if "j < length (a # xs)" for j
  proof (cases j)
    case 0
    with g show ?thesis by simp
  next
    case (Suc j')
    with that IH(2) g show ?thesis by simp
  qed
  moreover have "map index (harvest i (a # xs)) = [i..<i + length (a # xs)]"
    using g IH(3) by (simp add: upt_rec)
  ultimately show ?case using g IH(1) by simp
qed


text \<open>
  Claim C6, as stated, fails. Of three anchors the second raises during the extraction
  and the others succeed; then \<^verbatim>\<open>driver.page_source\<close> raises when the result is built
  (line 113). The exception is caught by the outer \<^verbatim>\<open>except\<close>: the result has
  \<open>success\<close> unset and no record at all, not two records.
\<close>

theorem harvest_lost_with_page_source:
  "extraction_raises \<lparr>img = Inl ''no such element'', href = Inr (Some ''/b'')\<rparr>
   \<and> \<not> extraction_raises \<lparr>img = Inr \<lparr>alt = Inr (Some ''A''), src = Inr (Some ''a.png'')\<rparr>,
                            href = Inr (Some ''/a'')\<rparr>
   \<and> \<not> extraction_raises \<lparr>img = Inr \<lparr>alt = Inr None, src = Inr None\<rparr>, href = Inr None\<rparr>
   \<and> scrape_single_provider
         (\<lambda>u. Inr \<lparr>get_error = None, load_more = (\<lambda>k. False),
                    anchors = Inr [\<lparr>img = Inr \<lparr>alt = Inr (Some ''A''), src = Inr (Some ''a.png'')\<rparr>,
                                    href = Inr (Some ''/a'')\<rparr>,
                                   \<lparr>img = Inl ''no such element'', href = Inr (Some ''/b'')\<rparr>,
                                   \<lparr>img = Inr \<lparr>alt = Inr None, src = Inr None\<rparr>, href = Inr None\<rparr>],
                    page_source = Inl ''invalid session id'', quit_error = None\<rparr>)
         ''https://x'' ''X''
       = Inr \<lparr>success = False, error = Some ''invalid session id'', games = [],
              click_count = 0, html = []\<rparr>"
  by (simp add: extraction_raises_def scrape_single_provider_def scrape_page_def failure_def)

text \<open>
  Claim C6, amended. The anchors found are \<open>xs\<close>, then one anchor \<open>m\<close> whose extraction
  raises, then \<open>ys\<close>, and no other anchor raises. When the page source can be read and
  the browser can be closed, the result has \<open>success\<close> set and one game for every anchor
  but \<open>m\<close>: each is the extraction of its anchor at the anchor's own position, counted
  from 1, so the positions kept are all but that of \<open>m\<close>. When reading the page source
  raises, the result is the failure result, with \<open>success\<close> unset and no game. When
  \<^verbatim>\<open>driver.quit()\<close> raises, there is no result: the exception leaves the function.
  (The session starts, the page loads and the listing is found: otherwise there is no
  extraction over the anchors.)
\<close>

theorem partial_harvest_resilience:
  assumes "\<forall>a\<in>set xs \<union> set ys. \<not> extraction_raises a"
    and "extraction_raises m"
    and "chrome url = Inr pg" and "get_error pg = None"
    and "anchors pg = Inr (xs @ m # ys)"
  shows "case quit_error pg of
           Some e \<Rightarrow> scrape_single_provider chrome url nm = Inl e
         | None \<Rightarrow>
             (case page_source pg of
                Inl e \<Rightarrow> scrape_single_provider chrome url nm = Inr (failure e)
              | Inr source \<Rightarrow>
                  (\<exists>r. scrape_single_provider chrome url nm = Inr r \<and> success r
                     \<and> html r = source
                     \<and> length (games r) = length (xs @ m # ys) - 1
                     \<and> map index (games r)
                         = [1..<length xs + 1] @ [length xs + 2..<length xs + length ys + 2]
                     \<and> (\<forall>j<length xs. extract_game (j + 1) (xs ! j) = Inr (games r ! j))
                     \<and> (\<forall>j<length ys.
                           extract_game (length xs + 2 + j) (ys ! j)
                             = Inr (games r ! (length xs + j)))))"
proof (cases "quit_error pg")
  case (Some e)
  with assms(3) show ?thesis by (simp add: scrape_single_provider_def)
next
  case None
  show ?thesis
  proof (cases "page_source pg")
    case (Inl e)
    with None assms(3-5) show ?thesis
      by (simp add: scrape_single_provider_def scrape_page_def)
  next
    case (Inr source)
    from assms(1) have ok: "\<forall>a\<in>set xs. \<not> extraction_raises a" "\<forall>a\<in>set ys. \<not> extraction_raises a"
      by auto
    let ?gs = "harvest 1 (xs @ m # ys)"
    have gs: "?gs = harvest 1 xs @ harvest (length xs + 2) ys"
      using harvest_raises [OF assms(2)] by (simp add: harvest_append)
    note X = harvest_all [OF ok(1), of 1]
    note Y = harvest_all [OF ok(2), of "length xs + 2"]
    have len: "length ?gs = length (xs @ m # ys) - 1"
      using X Y gs by simp
    have idx: "map index ?gs = [1..<length xs + 1] @ [length xs + 2..<length xs + length ys + 2]"
      using X Y gs by (simp add: add.commute add.left_commute)
    have left: "\<forall>j<length xs. extract_game (j + 1) (xs ! j) = Inr (?gs ! j)"
      using X gs by (simp add: nth_append add.commute)
    have right: "\<forall>j<length ys.
        extract_game (length xs + 2 + j) (ys ! j) = Inr (?gs ! (length xs + j))"
      using X Y gs by (simp add: nth_append)
    have "scrape_single_provider chrome url nm
        = Inr \<lparr>success = True, error = None, games = ?gs,
               click_count = fst (expansion_loop (load_more pg) 0 0), html = source\<rparr>"
      using assms(3-5) None Inr by (simp add: scrape_single_provider_def scrape_page_def)
    with len idx left right have "\<exists>r. scrape_single_provider chrome url nm = Inr r \<and> success r
                     \<and> html r = source
                     \<and> length (games r) = length (xs @ m # ys) - 1
                     \<and> map index (games r)
                         = [1..<length xs + 1] @ [length xs + 2..<length xs + length ys + 2]
                     \<and> (\<forall>j<length xs. extract_game (j + 1) (xs ! j) = Inr (games r ! j))
                     \<and> (\<forall>j<length ys.
                           extract_game (length xs + 2 + j) (ys ! j)
                             = Inr (games r ! (length xs + j)))"
      by simp
    with None Inr show ?thesis by simp
  qed
qed

theorem partial_harvest_resilience_witness:
  "\<exists>r. scrape_single_provider
         (\<lambda>u. Inr \<lparr>get_error = None, load_more = (\<lambda>k. False),
                    anchors = Inr [\<lparr>img = Inr \<lparr>alt = Inr (Some ''A''), src = Inr (Some ''a.png'')\<rparr>,
                                    href = Inr (Some ''/a'')\<rparr>,
                                   \<lparr>img = Inl ''no such element'', href = Inr (Some ''/b'')\<rparr>,
                                   \<lparr>img = Inr \<lparr>alt = Inr None, src = Inr None\<rparr>, href = Inr None\<rparr>],
                    page_source = Inr ''<html>'', quit_error = None\<rparr>) ''https://x'' ''X'' = Inr r
       \<and> success r \<and> length (games r) = 2 \<and> map index (games r) = [1, 3]"
proof -
  let ?a = "\<lparr>img = Inr \<lparr>alt = Inr (Some ''A''), src = Inr (Some ''a.png'')\<rparr>,
             href = Inr (Some ''/a'')\<rparr>"
  let ?m = "\<lparr>img = Inl ''no such element'', href = Inr (Some ''/b'')\<rparr>"
  let ?c = "\<lparr>img = Inr \<lparr>alt = Inr None, src = Inr None\<rparr>, href = Inr None\<rparr>"
  let ?pg = "\<lparr>get_error = None, load_more = (\<lambda>k. False), anchors = Inr [?a, ?m, ?c],
              page_source = Inr ''<html>'', quit_error = None\<rparr>"
  have h1: "\<forall>a\<in>set [?a] \<union> set [?c]. \<not> extraction_raises a"
    by (simp add: extraction_raises_def)
  have h2: "extraction_raises ?m"
    by (simp add: extraction_raises_def)
  have h3: "(\<lambda>u. Inr ?pg) ''https://x'' = Inr ?pg"
    by simp
  have h4: "get_error ?pg = None" and h5: "anchors ?pg = Inr ([?a] @ ?m # [?c])"
    by simp_all
  have q: "quit_error ?pg = None" and s: "page_source ?pg = Inr ''<html>''"
    by simp_all
  from partial_harvest_resilience
         [where chrome = "\<lambda>u. Inr ?pg" and url = "''https://x''" and nm = "''X''" and pg = ?pg
            and xs = "[?a]" and ys = "[?c]" and m = ?m,
          OF h1 h2 h3 h4 h5]
  have "\<exists>r. scrape_single_provider (\<lambda>u. Inr ?pg) ''https://x'' ''X'' = Inr r \<and> success r
      \<and> html r = ''<html>''
      \<and> length (games r) = length ([?a] @ ?m # [?c]) - 1
      \<and> map index (games r)
          = [1..<length [?a] + 1] @ [length [?a] + 2..<length [?a] + length [?c] + 2]
      \<and> (\<forall>j<length [?a]. extract_game (j + 1) ([?a] ! j) = Inr (games r ! j))
      \<and> (\<forall>j<length [?c].
            extract_game (length [?a] + 2 + j) ([?c] ! j) = Inr (games r ! (length [?a] + j)))"
    unfolding q s option.case sum.case .
  then obtain r where r: "scrape_single_provider (\<lambda>u. Inr ?pg) ''https://x'' ''X'' = Inr r"
    "success r" "length (games r) = length ([?a] @ ?m # [?c]) - 1"
    "map index (games r) = [1..<length [?a] + 1] @ [length [?a] + 2..<length [?a] + length [?c] + 2]"
    by blast
  from r(3) have "length (games r) = 2" by simp
  moreover from r(4) have "map index (games r) = [1, 3]" by (simp add: upt_rec)
  ultimately have "scrape_single_provider (\<lambda>u. Inr ?pg) ''https://x'' ''X'' = Inr r
      \<and> success r \<and> length (games r) = 2 \<and> map index (games r) = [1, 3]"
    using r(1,2) by (simp only: simp_thms)
  then show ?thesis by (rule exI)
qed

section \<open>Properties of the JSON encoder and decoder\<close>

subsection \<open>Reading what the encoder wrote\<close>

lemma char_eq_code: "(c = d) = ((of_char c :: nat) = of_char d)"
  by simp

lemma decoder_run_append:
  "decoder_run q (a @ b) = (case decoder_run q a of None \<Rightarrow> None | Some q' \<Rightarrow> decoder_run q' b)"
  by (induction a arbitrary: q) (auto split: option.splits)

lemma hex_value_hex_char: "d < 16 \<Longrightarrow> hex_value (hex_char d) = Some d"
  by (auto simp: hex_value_def hex_char_def Let_def)

lemma hex_value_zero: "hex_value CHR ''0'' = Some 0"
  by (simp add: hex_value_def)

lemma run_escape_char:
  "decoder_run (Config (InString acc) e st) (escape_char c)
     = Some (Config (InString (acc @ [c])) e st)"
proof -
  define n where "n = (of_char c :: nat)"
  have c: "c = char_of n" by (simp add: n_def)
  have n: "n < 256" by (simp add: n_def)
  consider "n = 34" | "n = 92" | "n = 10" | "n = 13" | "n = 9" | "n = 8" | "n = 12"
    | "32 \<le> n" "n \<le> 126" "n \<noteq> 34" "n \<noteq> 92"
    | "n < 32" "n \<noteq> 10" "n \<noteq> 13" "n \<noteq> 9" "n \<noteq> 8" "n \<noteq> 12"
    | "126 < n"
    by linarith
  then show ?thesis
  proof cases
    case 8
    then show ?thesis
      using n by (simp add: escape_char_def c char_eq_code)
  next
    case 9
    then have d: "n div 16 < 16" "n mod 16 < 16" by simp_all
    from 9 show ?thesis
      using n by (simp add: escape_char_def c char_eq_code unescape_def
          hex_value_hex_char [OF d(1)] hex_value_hex_char [OF d(2)] hex_value_zero)
  next
    case 10
    then have d: "n div 16 < 16" "n mod 16 < 16" using n by simp_all
    from 10 show ?thesis
      using n by (simp add: escape_char_def c char_eq_code unescape_def
          hex_value_hex_char [OF d(1)] hex_value_hex_char [OF d(2)] hex_value_zero)
  qed (simp_all add: escape_char_def c unescape_def char_eq_code)
qed

lemma run_string_body:
  "decoder_run (Config (InString acc) e st) (concat (map escape_char s))
     = Some (Config (InString (acc @ s)) e st)"
  by (induction s arbitrary: acc) (simp_all add: decoder_run_append run_escape_char)

lemma run_encode_key:
  "e = EKeyOrClose \<or> e = EKey \<Longrightarrow>
   decoder_run (Config Between e (OFrame ms # st)) (encode_string s)
     = Some (Config Between EColon (OKey ms s # st))"
  by (auto simp: encode_string_def decoder_run_append run_string_body outside_token_def
      is_ws_def close_string_def)

lemma run_encode_member:
  "decoder_run (Config Between EValue (OKey ms k # st)) (encode_string s)
     = Some (Config Between ECommaOrClose (OFrame (ms @ [(k, JString s)]) # st))"
  by (simp add: encode_string_def decoder_run_append run_string_body outside_token_def
      is_ws_def close_string_def start_value_def)

lemma run_encode_item:
  "e = EValue \<or> e = EValueOrClose \<Longrightarrow>
   decoder_run (Config Between e (AFrame xs # st)) (encode_string s)
     = Some (Config Between ECommaOrClose (AFrame (xs @ [JString s]) # st))"
  by (auto simp: encode_string_def decoder_run_append run_string_body outside_token_def
      is_ws_def close_string_def start_value_def)

lemma run_dump_items:
  "xs \<noteq> [] \<Longrightarrow> e = EValue \<or> e = EValueOrClose \<Longrightarrow>
   decoder_run (Config Between e (AFrame acc # st)) (dump_items xs)
     = Some (Config Between ECommaOrClose (AFrame (acc @ map JString xs) # st))"
proof (induction xs arbitrary: acc e rule: dump_items.induct)
  case 1
  then show ?case by simp
next
  case (2 x)
  then show ?case by (simp add: run_encode_item)
next
  case (3 x y ys)
  from "3.IH" [of EValue "acc @ [JString x]"]
  have IH: "decoder_run (Config Between EValue (AFrame (acc @ [JString x]) # st))
      (dump_items (y # ys))
      = Some (Config Between ECommaOrClose
                (AFrame ((acc @ [JString x]) @ map JString (y # ys)) # st))"
    by simp
  from "3.prems"(2) show ?case
    by (simp only: dump_items.simps decoder_run_append run_encode_item option.case)
      (simp add: outside_token_def is_ws_def IH [simplified] del: dump_items.simps)
qed

lemma run_dump_list:
  "decoder_run (Config Between EValue (OKey ms k # st)) (dump_list xs)
     = Some (Config Between ECommaOrClose (OFrame (ms @ [(k, JArray (map JString xs))]) # st))"
  by (simp add: dump_list_def decoder_run_append run_dump_items outside_token_def is_ws_def
      start_value_def)

lemma py_str_digit: "n < 10 \<Longrightarrow> py_str n = [char_of (48 + n)]"
  by (simp add: py_str.simps)

lemma py_str_more: "10 \<le> n \<Longrightarrow> py_str n = py_str (n div 10) @ [char_of (48 + n mod 10)]"
  by (subst py_str.simps) simp

lemma is_digit_char_of: "(m::nat) < 10 \<Longrightarrow> is_digit (char_of (48 + m))"
  by (simp add: is_digit_def)

lemma run_py_str:
  "decoder_run (Config Between EValue st) (py_str n)
     = Some (Config (InNumber (if n = 0 then NZero else NInt) (py_str n)) EValue st)"
proof (induction n rule: py_str.induct)
  case (1 n)
  show ?case
  proof (cases "n < 10")
    case True
    then show ?thesis
      by (simp add: py_str_digit outside_token_def is_ws_def start_value_def
          is_digit_def char_eq_code)
  next
    case False
    then have n: "10 \<le> n" "n div 10 \<noteq> 0" by simp_all
    have d: "is_digit (char_of (48 + n mod 10))"
      by (rule is_digit_char_of) simp
    from "1.IH" False n
    have IH: "decoder_run (Config Between EValue st) (py_str (n div 10))
        = Some (Config (InNumber NInt (py_str (n div 10))) EValue st)"
      by simp
    show ?thesis
      using n d by (simp add: py_str_more decoder_run_append IH number_next_def)
  qed
qed

lemma step_number_comma:
  "decoder_step (Config (InNumber (if n = 0 then NZero else NInt) lexeme) EValue
                   (OKey ms k # st)) CHR '',''
     = Some (Config Between EKey (OFrame (ms @ [(k, JNumber lexeme)]) # st))"
  by (simp add: number_next_def number_complete_def is_digit_def outside_token_def is_ws_def)

lemma step_number_newline:
  "decoder_step (Config (InNumber (if n = 0 then NZero else NInt) lexeme) EValue
                   (OKey ms k # st)) CHR 0x0A
     = Some (Config Between ECommaOrClose (OFrame (ms @ [(k, JNumber lexeme)]) # st))"
  by (simp add: number_next_def number_complete_def is_digit_def outside_token_def is_ws_def)

lemma run_json_dumps:
  "decoder_run (Config Between EValue []) (json_dumps checkpoint)
     = Some (Config Between
         (EEnd (JObject
            [(''completed_providers'', JArray (map JString (ck_completed_providers checkpoint))),
             (''last_updated'', JString (ck_last_updated checkpoint)),
             (''total_games_so_far'', JNumber (py_str (ck_total_games_so_far checkpoint))),
             (''successful_providers'', JNumber (py_str (ck_successful_providers checkpoint)))]))
         [])"
  by (simp add: json_dumps_def decoder_run_append run_encode_key run_encode_member
      run_dump_list run_py_str step_number_comma step_number_newline outside_token_def
      is_ws_def start_value_def del: decoder_step.simps(2-6))

lemma as_strings_map: "as_strings (map JString xs) = Some xs"
  by (induction xs) simp_all

lemma digits_value_snoc:
  "digits_value a (xs @ [c]) = 10 * digits_value a xs + (of_char c - 48)"
  by (induction xs arbitrary: a) simp_all

lemma py_str_value: "list_all is_digit (py_str n) \<and> digits_value 0 (py_str n) = n"
proof (induction n rule: py_str.induct)
  case (1 n)
  show ?case
  proof (cases "n < 10")
    case True
    then show ?thesis
      by (simp add: py_str_digit is_digit_char_of)
  next
    case False
    with "1.IH" show ?thesis
      by (simp add: py_str_more is_digit_char_of digits_value_snoc)
  qed
qed

lemma json_roundtrip: "checkpoint_json_load (json_dumps checkpoint) = Some checkpoint"
  by (simp add: checkpoint_json_load_def json_loads_def run_json_dumps decoder_result_def
      as_checkpoint_def dict_lookup_def as_strings_map as_text_def as_count_def py_str_value)

subsection \<open>A document cut short is rejected\<close>

lemma deliver_shape:
  "deliver v st = Some (Config l e st') \<Longrightarrow>
   l = Between \<and> (if st = [] then st' = [] \<and> e = EEnd v else st' \<noteq> [])"
  by (cases "(v, st)" rule: deliver.cases) auto

lemma outside_token_open:
  assumes "outside_token e st c = Some (Config l' e' st')" and "st \<noteq> []"
  shows "st' \<noteq> [] \<or> (l' = Between \<and> (\<exists>v. e' = EEnd v))"
proof (cases "is_ws c")
  case True
  with assms show ?thesis by (simp add: outside_token_def)
next
  case False
  with assms have a: "at_token e st c = Some (Config l' e' st')"
    by (simp add: outside_token_def)
  obtain f fs where st: "st = f # fs" using assms(2) by (cases st) auto
  show ?thesis
  proof (cases e)
    case EValue
    with a st show ?thesis
      by (auto simp: start_value_def split: if_splits)
  next
    case EValueOrClose
    with a st show ?thesis
      by (cases fs) (auto simp: start_value_def split: if_splits frame.splits
          dest!: deliver_shape)
  next
    case EKeyOrClose
    with a st show ?thesis
      by (cases fs) (auto split: if_splits frame.splits dest!: deliver_shape)
  next
    case ECommaOrClose
    with a st show ?thesis
      by (cases fs) (auto split: if_splits frame.splits dest!: deliver_shape)
  qed (use a st in \<open>auto split: if_splits\<close>)
qed

lemma decoder_step_open:
  assumes "decoder_step (Config l e st) c = Some (Config l' e' st')" and "st \<noteq> []"
  shows "st' \<noteq> [] \<or> (l' = Between \<and> (\<exists>v. e' = EEnd v))"
proof (cases l)
  case Between
  with assms show ?thesis using outside_token_open [of e st c l' e' st'] by simp
next
  case (InString s)
  with assms show ?thesis
    by (auto simp: close_string_def split: if_splits list.splits frame.splits
        dest!: deliver_shape)
next
  case (InEscape s)
  with assms show ?thesis by (auto split: if_splits option.splits)
next
  case (InUnicode s ds)
  with assms show ?thesis by (auto simp: Let_def split: if_splits option.splits)
next
  case (InNumber ns lexeme)
  show ?thesis
  proof (cases "ns = NMinus \<and> c = CHR ''I''")
    case True
    with assms InNumber show ?thesis by auto
  next
    case False
    show ?thesis
    proof (cases "number_next ns c")
      case (Some ns')
      with assms InNumber False show ?thesis by auto
    next
      case None
      with assms InNumber False obtain l1 e1 st1 where
        d: "deliver (JNumber lexeme) st = Some (Config l1 e1 st1)"
        and o: "outside_token e1 st1 c = Some (Config l' e' st')"
        by (auto split: if_splits option.splits config.splits)
      from deliver_shape [OF d] assms(2) have "st1 \<noteq> []" by simp
      from outside_token_open [OF o this] show ?thesis .
    qed
  qed
next
  case (InLiteral v rest)
  with assms show ?thesis
    by (auto split: if_splits list.splits dest!: deliver_shape)
qed

lemma decoder_step_done:
  "decoder_step (Config Between (EEnd v) []) c = Some q \<Longrightarrow>
   is_ws c \<and> q = Config Between (EEnd v) []"
  by (auto simp: outside_token_def split: if_splits)

lemma decoder_run_done:
  "decoder_run (Config Between (EEnd v) []) s = Some q \<Longrightarrow>
   list_all is_ws s \<and> q = Config Between (EEnd v) []"
proof (induction s)
  case Nil
  then show ?case by simp
next
  case (Cons c cs)
  then obtain q1 where q1: "decoder_step (Config Between (EEnd v) []) c = Some q1"
    "decoder_run q1 cs = Some q"
    by (auto split: option.splits)
  from decoder_step_done [OF q1(1)] q1(2) Cons.IH show ?case by simp
qed

lemma decoder_run_open:
  "decoder_run (Config l e st) s = Some (Config l' e' st') \<Longrightarrow>
   st \<noteq> [] \<or> (l = Between \<and> (\<exists>v. e = EEnd v) \<and> st = []) \<Longrightarrow>
   st' \<noteq> [] \<or> (l' = Between \<and> (\<exists>v. e' = EEnd v) \<and> st' = [])"
proof (induction s arbitrary: l e st)
  case Nil
  then show ?case by auto
next
  case (Cons c cs)
  from Cons.prems(1) obtain l1 e1 st1 where
    s: "decoder_step (Config l e st) c = Some (Config l1 e1 st1)"
    and r: "decoder_run (Config l1 e1 st1) cs = Some (Config l' e' st')"
    by (auto split: option.splits) (metis config.exhaust)
  have "st1 \<noteq> [] \<or> (l1 = Between \<and> (\<exists>v. e1 = EEnd v) \<and> st1 = [])"
  proof (cases "st = []")
    case True
    with Cons.prems(2) s show ?thesis
      using decoder_step_done [of _ c "Config l1 e1 st1"] by auto
  next
    case False
    from decoder_step_open [OF s False] show ?thesis by auto
  qed
  from Cons.IH [OF r this] show ?case .
qed

lemma json_loads_cut:
  assumes "k < length (json_dumps checkpoint)"
  shows "json_loads (take k (json_dumps checkpoint)) = None"
proof (cases k)
  case 0
  then show ?thesis by (simp add: json_loads_def decoder_result_def)
next
  case (Suc j)
  define rest where "rest = tl (json_dumps checkpoint)"
  have doc: "json_dumps checkpoint = CHR ''{'' # rest"
    by (simp add: rest_def json_dumps_def)
  have last: "last rest = CHR ''}''"
    by (simp add: rest_def json_dumps_def)
  from assms Suc doc have j: "j < length rest" by simp
  let ?q1 = "Config Between EKeyOrClose [OFrame []]"
  from run_json_dumps [of checkpoint] obtain v where
    full: "decoder_run ?q1 rest = Some (Config Between (EEnd v) [])"
    by (simp add: doc outside_token_def is_ws_def start_value_def)
  have "decoder_run ?q1 (take j rest @ drop j rest) = Some (Config Between (EEnd v) [])"
    using full by simp
  then obtain q2 where q2: "decoder_run ?q1 (take j rest) = Some q2"
    and after: "decoder_run q2 (drop j rest) = Some (Config Between (EEnd v) [])"
    unfolding decoder_run_append by (auto split: option.splits)
  obtain l e st where c: "q2 = Config l e st" by (cases q2)
  from decoder_run_open [OF q2 [unfolded c]]
  have "st \<noteq> [] \<or> (l = Between \<and> (\<exists>w. e = EEnd w) \<and> st = [])" by simp
  then have "decoder_result q2 = None"
  proof
    assume "st \<noteq> []"
    then show ?thesis
      by (auto simp: c decoder_result_def split: lexing.splits expect.splits list.splits)
  next
    assume "l = Between \<and> (\<exists>w. e = EEnd w) \<and> st = []"
    then obtain w where "q2 = Config Between (EEnd w) []" using c by auto
    with after have ws: "list_all is_ws (drop j rest)"
      using decoder_run_done by blast
    from j have ne: "drop j rest \<noteq> []" by simp
    then have "last (drop j rest) = CHR ''}''" using last by simp
    with ne have "CHR ''}'' \<in> set (drop j rest)"
      using last_in_set by metis
    with ws have "is_ws CHR ''}''" by (simp add: list_all_iff)
    then show ?thesis by (simp add: is_ws_def)
  qed
  with q2 show ?thesis
    by (simp add: json_loads_def Suc doc outside_token_def is_ws_def start_value_def)
qed

lemma checkpoint_json_load_cut:
  "k < length (json_dumps checkpoint) \<Longrightarrow>
   checkpoint_json_load (take k (json_dumps checkpoint)) = None"
  by (simp add: checkpoint_json_load_def json_loads_cut)

section \<open>Properties of main\<close>

subsection \<open>The loop over the providers\<close>

lemma main_step_cases:
  assumes "main_step procs chrome disk now i (u, pn) st = (evs, st')"
  obtains
    (skip) "pn \<in> set (completed_providers st)" "evs = [Skipped pn]" "st' = st"
  | (crash) e where "pn \<notin> set (completed_providers st)"
      "scrape_single_provider (chrome i) u pn = Inl e"
      "evs = [CloseAllChrome (procs i), ScrapeSingleProvider u pn]"
      "st' = st\<lparr>crashed := Some e\<rparr>"
  | (failed) r where "pn \<notin> set (completed_providers st)"
      "scrape_single_provider (chrome i) u pn = Inr r" "\<not> success r"
      "evs = [CloseAllChrome (procs i), ScrapeSingleProvider u pn, Sleep 5]" "st' = st"
  | (save_raises) r e where "pn \<notin> set (completed_providers st)"
      "scrape_single_provider (chrome i) u pn = Inr r" "success r" "disk i = SaveRaises e"
      "evs = [CloseAllChrome (procs i), ScrapeSingleProvider u pn,
              SaveProviderDataRaises pn r e]"
      "st' = st\<lparr>crashed := Some e\<rparr>"
  | (open_raises) r e ck where "pn \<notin> set (completed_providers st)"
      "scrape_single_provider (chrome i) u pn = Inr r" "success r" "disk i = OpenRaises e"
      "ck = \<lparr>ck_completed_providers = completed_providers st @ [pn],
             ck_last_updated = now i,
             ck_total_games_so_far = total_games st + length (games r),
             ck_successful_providers = successful_providers st + 1\<rparr>"
      "evs = [CloseAllChrome (procs i), ScrapeSingleProvider u pn, SaveProviderData pn r,
              WriteCheckpoint ck]"
      "st' = st\<lparr>total_games := total_games st + length (games r),
               successful_providers := successful_providers st + 1,
               completed_providers := completed_providers st @ [pn],
               crashed := Some e\<rparr>"
  | (write_stops) r k e ck where "pn \<notin> set (completed_providers st)"
      "scrape_single_provider (chrome i) u pn = Inr r" "success r" "disk i = WriteStops k e"
      "ck = \<lparr>ck_completed_providers = completed_providers st @ [pn],
             ck_last_updated = now i,
             ck_total_games_so_far = total_games st + length (games r),
             ck_successful_providers = successful_providers st + 1\<rparr>"
      "evs = [CloseAllChrome (procs i), ScrapeSingleProvider u pn, SaveProviderData pn r,
              WriteCheckpoint ck]"
      "st' = st\<lparr>total_games := total_games st + length (games r),
               successful_providers := successful_providers st + 1,
               completed_providers := completed_providers st @ [pn],
               checkpoint_on_disk := interrupted_write (json_dumps ck) k,
               crashed := Some e\<rparr>"
  | (succeeded) r ck where "pn \<notin> set (completed_providers st)"
      "scrape_single_provider (chrome i) u pn = Inr r" "success r" "disk i = Persisted"
      "ck = \<lparr>ck_completed_providers = completed_providers st @ [pn],
             ck_last_updated = now i,
             ck_total_games_so_far = total_games st + length (games r),
             ck_successful_providers = successful_providers st + 1\<rparr>"
      "evs = [CloseAllChrome (procs i), ScrapeSingleProvider u pn, SaveProviderData pn r,
              WriteCheckpoint ck, Sleep 5]"
      "st' = st\<lparr>total_games := total_games st + length (games r),
               successful_providers := successful_providers st + 1,
               completed_providers := completed_providers st @ [pn],
               checkpoint_on_disk := Some (json_dumps ck)\<rparr>"
proof (cases "pn \<in> set (completed_providers st)")
  case True
  with assms have "evs = [Skipped pn]" "st' = st"
    by (simp_all add: main_step_def)
  with True show ?thesis by (rule skip)
next
  case notin: False
  show ?thesis
  proof (cases "scrape_single_provider (chrome i) u pn")
    case (Inl e)
    with assms notin have "evs = [CloseAllChrome (procs i), ScrapeSingleProvider u pn]"
      "st' = st\<lparr>crashed := Some e\<rparr>"
      by (simp_all add: main_step_def)
    with notin Inl show ?thesis by (rule crash)
  next
    case (Inr r)
    show ?thesis
    proof (cases "success r")
      case False
      with assms notin Inr
      have "evs = [CloseAllChrome (procs i), ScrapeSingleProvider u pn, Sleep 5]" "st' = st"
        by (simp_all add: main_step_def)
      with notin Inr False show ?thesis by (rule failed)
    next
      case True
      define ck where "ck = \<lparr>ck_completed_providers = completed_providers st @ [pn],
             ck_last_updated = now i,
             ck_total_games_so_far = total_games st + length (games r),
             ck_successful_providers = successful_providers st + 1\<rparr>"
      show ?thesis
      proof (cases "disk i")
        case (SaveRaises e)
        with assms notin Inr True
        have "evs = [CloseAllChrome (procs i), ScrapeSingleProvider u pn,
              SaveProviderDataRaises pn r e]" "st' = st\<lparr>crashed := Some e\<rparr>"
          by (simp_all add: main_step_def Let_def)
        with notin Inr True SaveRaises show ?thesis by (rule save_raises)
      next
        case (OpenRaises e)
        with assms notin Inr True
        have "evs = [CloseAllChrome (procs i), ScrapeSingleProvider u pn,
              SaveProviderData pn r, WriteCheckpoint ck]"
          "st' = st\<lparr>total_games := total_games st + length (games r),
               successful_providers := successful_providers st + 1,
               completed_providers := completed_providers st @ [pn],
               crashed := Some e\<rparr>"
          by (simp_all add: main_step_def Let_def ck_def)
        with notin Inr True OpenRaises ck_def show ?thesis by (rule open_raises)
      next
        case (WriteStops k e)
        with assms notin Inr True
        have "evs = [CloseAllChrome (procs i), ScrapeSingleProvider u pn,
              SaveProviderData pn r, WriteCheckpoint ck]"
          "st' = st\<lparr>total_games := total_games st + length (games r),
               successful_providers := successful_providers st + 1,
               completed_providers := completed_providers st @ [pn],
               checkpoint_on_disk := interrupted_write (json_dumps ck) k,
               crashed := Some e\<rparr>"
          by (simp_all add: main_step_def Let_def ck_def)
        with notin Inr True WriteStops ck_def show ?thesis by (rule write_stops)
      next
        case Persisted
        with assms notin Inr True
        have "evs = [CloseAllChrome (procs i), ScrapeSingleProvider u pn,
              SaveProviderData pn r, WriteCheckpoint ck, Sleep 5]"
          "st' = st\<lparr>total_games := total_games st + length (games r),
               successful_providers := successful_providers st + 1,
               completed_providers := completed_providers st @ [pn],
               checkpoint_on_disk := Some (json_dumps ck)\<rparr>"
          by (simp_all add: main_step_def Let_def ck_def)
        with notin Inr True Persisted ck_def show ?thesis by (rule succeeded)
      qed
    qed
  qed
qed

lemma main_loop_Cons:
  "main_loop procs chrome disk now i (p # rest) st =
     (let r = main_step procs chrome disk now i p st in
      if crashed (snd r) \<noteq> None then r
      else (fst r @ fst (main_loop procs chrome disk now (i + 1) rest (snd r)),
            snd (main_loop procs chrome disk now (i + 1) rest (snd r))))"
  by (simp add: Let_def split: prod.splits)

subsection \<open>Completed targets are passed over\<close>

lemma main_step_completed:
  assumes "main_step procs chrome disk now i p st = (evs, st')"
    and "nm \<in> set (completed_providers st)"
  shows "nm \<in> set (completed_providers st')
    \<and> count_list (completed_providers st') nm = count_list (completed_providers st) nm
    \<and> (\<forall>u. ScrapeSingleProvider u nm \<notin> set evs)
    \<and> (\<forall>r. SaveProviderData nm r \<notin> set evs)
    \<and> (\<forall>r e. SaveProviderDataRaises nm r e \<notin> set evs)
    \<and> (\<forall>ck. WriteCheckpoint ck \<in> set evs \<longrightarrow>
          count_list (ck_completed_providers ck) nm = count_list (completed_providers st) nm)"
proof -
  obtain u pn where p: "p = (u, pn)" by (cases p)
  from assms(1) [unfolded p] show ?thesis
  proof (cases rule: main_step_cases)
    case skip
    with assms(2) show ?thesis by simp
  next
    case (crash e)
    with assms(2) show ?thesis by auto
  next
    case (failed r)
    with assms(2) show ?thesis by auto
  next
    case (save_raises r e)
    with assms(2) show ?thesis by auto
  next
    case (open_raises r e ck)
    with assms(2) have "pn \<noteq> nm" by auto
    with open_raises assms(2) show ?thesis by auto
  next
    case (write_stops r k e ck)
    with assms(2) have "pn \<noteq> nm" by auto
    with write_stops assms(2) show ?thesis by auto
  next
    case (succeeded r ck)
    with assms(2) have "pn \<noteq> nm" by auto
    with succeeded assms(2) show ?thesis by auto
  qed
qed

lemma main_loop_completed:
  assumes "main_loop procs chrome disk now i targets st = (evs, st')"
    and "nm \<in> set (completed_providers st)"
  shows "count_list (completed_providers st') nm = count_list (completed_providers st) nm
    \<and> (\<forall>u. ScrapeSingleProvider u nm \<notin> set evs)
    \<and> (\<forall>r. SaveProviderData nm r \<notin> set evs)
    \<and> (\<forall>r e. SaveProviderDataRaises nm r e \<notin> set evs)
    \<and> (\<forall>ck. WriteCheckpoint ck \<in> set evs \<longrightarrow>
          count_list (ck_completed_providers ck) nm = count_list (completed_providers st) nm)"
  using assms
proof (induction targets arbitrary: i st evs st')
  case Nil
  then show ?case by simp
next
  case (Cons p rest)
  obtain e1 s1 where step: "main_step procs chrome disk now i p st = (e1, s1)"
    by (cases "main_step procs chrome disk now i p st")
  note S = main_step_completed [OF step Cons.prems(2)]
  show ?case
  proof (cases "crashed s1 \<noteq> None")
    case True
    with step Cons.prems(1) have "evs = e1" "st' = s1" by auto
    with S show ?thesis by simp
  next
    case False
    obtain e2 s2 where rest: "main_loop procs chrome disk now (i + 1) rest s1 = (e2, s2)"
      by (cases "main_loop procs chrome disk now (i + 1) rest s1")
    with step False Cons.prems(1) have eq: "evs = e1 @ e2" "st' = s2" by auto
    from S have "nm \<in> set (completed_providers s1)" by simp
    from Cons.IH [OF rest this] S eq show ?thesis by auto
  qed
qed

text \<open>
  Claim C1. In every run, a target whose name is in the list loaded from the checkpoint
  file at the start is passed over: \<^verbatim>\<open>scrape_single_provider\<close> is never called for
  it, \<^verbatim>\<open>save_provider_data\<close>, which writes its output files, is never called for it,
  and its name is never appended again, neither to the list of the run nor to a
  checkpoint the run writes.
\<close>

theorem idempotent_resume:
  assumes "nm \<in> set (load_checkpoint json_load checkpoint_file)"
    and "run_batch json_load checkpoint_file procs chrome disk now targets = (evs, st)"
  shows "(\<forall>u. ScrapeSingleProvider u nm \<notin> set evs)
    \<and> (\<forall>r. SaveProviderData nm r \<notin> set evs)
    \<and> (\<forall>r e. SaveProviderDataRaises nm r e \<notin> set evs)
    \<and> count_list (completed_providers st) nm
        = count_list (load_checkpoint json_load checkpoint_file) nm
    \<and> (\<forall>ck. WriteCheckpoint ck \<in> set evs \<longrightarrow>
          count_list (ck_completed_providers ck) nm
            = count_list (load_checkpoint json_load checkpoint_file) nm)"
  using main_loop_completed [OF assms(2) [unfolded run_batch_def], of nm] assms(1)
  by simp

subsection \<open>close\_all\_chrome\<close>

lemma close_all_chrome_subset: "set (close_all_chrome ps) \<subseteq> set ps"
  by (induction ps) (auto split: option.splits)



subsection \<open>Every target is handled\<close>




subsection \<open>Isolation of the targets\<close>













subsection \<open>Sample runs\<close>

lemmas sample_defs = sample_anchor_def sample_page_def sample_broken_page_def
  sample_chrome_def sample_now_def sample_result_def sample_disk_def

lemma sample_scrape:
  "u \<noteq> ''https://x/broken'' \<Longrightarrow>
   scrape_single_provider (sample_chrome i) u pn = Inr sample_result"
  by (simp add: sample_defs scrape_single_provider_def scrape_page_def extract_game_def
      py_or_def expansion_loop.simps)


lemma json_dumps_sample_old: "json_dumps sample_old_checkpoint = sample_old_doc"
  by (simp add: json_dumps_def sample_old_checkpoint_def sample_old_doc_def encode_string_def
      escape_char_def dump_list_def py_str.simps char_eq_code)

lemma json_dumps_sample_new: "json_dumps sample_new_checkpoint = sample_new_doc"
  by (simp add: json_dumps_def sample_new_checkpoint_def sample_new_doc_def encode_string_def
      escape_char_def dump_list_def py_str.simps char_eq_code)

lemma checkpoint_json_load_old: "checkpoint_json_load sample_old_doc = Some sample_old_checkpoint"
  using json_roundtrip [of sample_old_checkpoint] by (simp add: json_dumps_sample_old)

lemma load_sample_old: "load_checkpoint checkpoint_json_load (Some sample_old_doc) = [''Ace Roll'']"
  by (simp add: load_checkpoint_def checkpoint_json_load_old sample_old_checkpoint_def)

lemma sample_first_run:
  "run_batch json_load None sample_procs sample_chrome sample_disk sample_now
     [(''https://x/1'', ''Ace Roll'')]
   = ([CloseAllChrome (sample_procs 1), ScrapeSingleProvider ''https://x/1'' ''Ace Roll'',
       SaveProviderData ''Ace Roll'' sample_result, WriteCheckpoint sample_old_checkpoint,
       Sleep 5],
      \<lparr>completed_providers = [''Ace Roll''], total_games = 2, successful_providers = 1,
       checkpoint_on_disk = Some (json_dumps sample_old_checkpoint), crashed = None\<rparr>)"
  by (simp add: run_batch_def load_checkpoint_def main_step_def sample_scrape Let_def
      sample_disk_def)
    (simp add: sample_result_def sample_now_def sample_old_checkpoint_def
      numeral_2_eq_2 [symmetric])

lemma sample_resumed_run:
  "run_batch checkpoint_json_load (Some sample_old_doc) sample_procs sample_chrome sample_disk
     sample_now [(''https://x/1'', ''Ace Roll''), (''https://x/2'', ''All41'')]
   = ([Skipped ''Ace Roll'', CloseAllChrome (sample_procs 2),
       ScrapeSingleProvider ''https://x/2'' ''All41'',
       SaveProviderData ''All41'' sample_result, WriteCheckpoint sample_new_checkpoint,
       Sleep 5],
      \<lparr>completed_providers = [''Ace Roll'', ''All41''], total_games = 2,
       successful_providers = 1,
       checkpoint_on_disk = Some (json_dumps sample_new_checkpoint), crashed = None\<rparr>)"
  by (simp add: run_batch_def load_sample_old main_step_def sample_scrape Let_def
      sample_disk_def)
    (simp add: sample_result_def sample_now_def sample_new_checkpoint_def
      numeral_2_eq_2 [symmetric])



lemma sample_interrupted_run:
  "run_batch checkpoint_json_load (Some sample_old_doc) sample_procs sample_chrome
     (\<lambda>i. WriteStops 0 ''KeyboardInterrupt'') sample_now
     [(''https://x/1'', ''Ace Roll''), (''https://x/2'', ''All41'')]
   = ([Skipped ''Ace Roll'', CloseAllChrome (sample_procs 2),
       ScrapeSingleProvider ''https://x/2'' ''All41'',
       SaveProviderData ''All41'' sample_result, WriteCheckpoint sample_new_checkpoint],
      \<lparr>completed_providers = [''Ace Roll'', ''All41''], total_games = 2,
       successful_providers = 1,
       checkpoint_on_disk = Some [], crashed = Some ''KeyboardInterrupt''\<rparr>)"
  by (simp add: run_batch_def load_sample_old main_step_def sample_scrape Let_def
      interrupted_write_def)
    (simp add: sample_result_def sample_now_def sample_new_checkpoint_def
      numeral_2_eq_2 [symmetric])

theorem idempotent_resume_witness:
  "''Ace Roll'' \<in> set (load_checkpoint checkpoint_json_load (Some sample_old_doc))
   \<and> (\<forall>u. ScrapeSingleProvider u ''Ace Roll''
         \<notin> set (fst (run_batch checkpoint_json_load (Some sample_old_doc) sample_procs
                        sample_chrome sample_disk sample_now
                        [(''https://x/1'', ''Ace Roll''), (''https://x/2'', ''All41'')])))
   \<and> (\<forall>r. SaveProviderData ''Ace Roll'' r
         \<notin> set (fst (run_batch checkpoint_json_load (Some sample_old_doc) sample_procs
                        sample_chrome sample_disk sample_now
                        [(''https://x/1'', ''Ace Roll''), (''https://x/2'', ''All41'')])))
   \<and> count_list
         (completed_providers
            (snd (run_batch checkpoint_json_load (Some sample_old_doc) sample_procs
                    sample_chrome sample_disk sample_now
                    [(''https://x/1'', ''Ace Roll''), (''https://x/2'', ''All41'')])))
         ''Ace Roll'' = 1"
proof -
  have h: "''Ace Roll'' \<in> set (load_checkpoint checkpoint_json_load (Some sample_old_doc))"
    by (simp add: load_sample_old)
  have c: "count_list (load_checkpoint checkpoint_json_load (Some sample_old_doc)) ''Ace Roll''
      = 1"
    by (simp add: load_sample_old)
  from idempotent_resume [OF h sample_resumed_run] h c show ?thesis
    by (simp only: sample_resumed_run fst_conv snd_conv simp_thms)
qed



subsection \<open>The counters of the checkpoint\<close>

lemma checkpoints_written_append:
  "checkpoints_written (xs @ ys) = checkpoints_written xs @ checkpoints_written ys"
  by (induction xs rule: checkpoints_written.induct) auto

lemma games_saved_append: "games_saved (xs @ ys) = games_saved xs @ games_saved ys"
  by (induction xs rule: games_saved.induct) auto

lemma main_step_counters:
  assumes "main_step procs chrome disk now i p st = (evs, st')"
  shows "(checkpoints_written evs = [] \<and> games_saved evs = []
          \<and> total_games st' = total_games st
          \<and> successful_providers st' = successful_providers st)
       \<or> (\<exists>ck n. checkpoints_written evs = [ck] \<and> games_saved evs = [n]
            \<and> ck_total_games_so_far ck = total_games st + n
            \<and> ck_successful_providers ck = successful_providers st + 1
            \<and> total_games st' = total_games st + n
            \<and> successful_providers st' = successful_providers st + 1)"
proof -
  obtain u pn where p: "p = (u, pn)" by (cases p)
  from assms [unfolded p] show ?thesis
    by (cases rule: main_step_cases) auto
qed

lemma main_loop_counters:
  assumes "main_loop procs chrome disk now i targets st = (evs, st')"
  shows "length (checkpoints_written evs) = length (games_saved evs)
    \<and> (\<forall>k<length (checkpoints_written evs).
          ck_total_games_so_far (checkpoints_written evs ! k)
            = total_games st + sum_list (take (Suc k) (games_saved evs))
          \<and> ck_successful_providers (checkpoints_written evs ! k)
            = successful_providers st + Suc k)"
  using assms
proof (induction targets arbitrary: i st evs st')
  case Nil
  then show ?case by simp
next
  case (Cons p rest)
  obtain e1 s1 where step: "main_step procs chrome disk now i p st = (e1, s1)"
    by (cases "main_step procs chrome disk now i p st")
  note S = main_step_counters [OF step]
  show ?case
  proof (cases "crashed s1 \<noteq> None")
    case True
    with step Cons.prems(1) have "evs = e1" by auto
    with S show ?thesis by auto
  next
    case False
    obtain e2 s2 where rest: "main_loop procs chrome disk now (i + 1) rest s1 = (e2, s2)"
      by (cases "main_loop procs chrome disk now (i + 1) rest s1")
    with step False Cons.prems(1) have eq: "evs = e1 @ e2" by auto
    note IH = Cons.IH [OF rest]
    from S show ?thesis
    proof
      assume "checkpoints_written e1 = [] \<and> games_saved e1 = []
          \<and> total_games s1 = total_games st
          \<and> successful_providers s1 = successful_providers st"
      with IH eq show ?thesis
        by (simp add: checkpoints_written_append games_saved_append)
    next
      assume "\<exists>ck n. checkpoints_written e1 = [ck] \<and> games_saved e1 = [n]
            \<and> ck_total_games_so_far ck = total_games st + n
            \<and> ck_successful_providers ck = successful_providers st + 1
            \<and> total_games s1 = total_games st + n
            \<and> successful_providers s1 = successful_providers st + 1"
      then obtain ck n where a: "checkpoints_written e1 = [ck]" "games_saved e1 = [n]"
        "ck_total_games_so_far ck = total_games st + n"
        "ck_successful_providers ck = successful_providers st + 1"
        "total_games s1 = total_games st + n"
        "successful_providers s1 = successful_providers st + 1" by blast
      have cw: "checkpoints_written evs = ck # checkpoints_written e2"
        and gs: "games_saved evs = n # games_saved e2"
        using eq a by (simp_all add: checkpoints_written_append games_saved_append)
      have "ck_total_games_so_far (checkpoints_written evs ! k)
            = total_games st + sum_list (take (Suc k) (games_saved evs))
          \<and> ck_successful_providers (checkpoints_written evs ! k)
            = successful_providers st + Suc k"
        if "k < length (checkpoints_written evs)" for k
      proof (cases k)
        case 0
        with cw gs a show ?thesis by simp
      next
        case (Suc j)
        with that cw have "j < length (checkpoints_written e2)" by simp
        with IH a(5,6) Suc cw gs show ?thesis by simp
      qed
      with IH cw gs show ?thesis by simp
    qed
  qed
qed

text \<open>
  Claim C9, amended. The counters are not read from the checkpoint file: they start at
  zero in every run (lines 233 and 234). So the checkpoint written after the \<open>k\<close>-th
  target completed in a run holds, as \<^verbatim>\<open>total_games_so_far\<close>, the number of games of
  the targets completed in this run so far and, as \<^verbatim>\<open>successful_providers\<close>, their
  number \<open>k\<close>, whatever an earlier run persisted; after the first completed target of a
  run these are that target's number of games and 1.
\<close>

theorem checkpoint_counters_per_run:
  assumes "run_batch json_load checkpoint_file procs chrome disk now targets = (evs, st)"
  shows "length (checkpoints_written evs) = length (games_saved evs)
    \<and> (\<forall>k<length (checkpoints_written evs).
          ck_total_games_so_far (checkpoints_written evs ! k)
            = sum_list (take (Suc k) (games_saved evs))
          \<and> ck_successful_providers (checkpoints_written evs ! k) = Suc k)"
  using main_loop_counters [OF assms [unfolded run_batch_def]] by simp

theorem checkpoint_counters_per_run_witness:
  "checkpoints_written
     (fst (run_batch checkpoint_json_load (Some sample_old_doc) sample_procs sample_chrome
             sample_disk sample_now
             [(''https://x/1'', ''Ace Roll''), (''https://x/2'', ''All41'')]))
     = [sample_new_checkpoint]
   \<and> ck_total_games_so_far sample_new_checkpoint = 2
   \<and> ck_successful_providers sample_new_checkpoint = 1"
  using checkpoint_counters_per_run [OF sample_resumed_run]
  by (simp only: sample_resumed_run fst_conv) (simp add: sample_result_def)

text \<open>
  Claim C9, as stated, fails. A first run completes one target with 2 games and persists
  the counters 2 and 1. A second run resumes from that checkpoint and completes another
  target with 2 games: it persists 2 and 1 again, not 4 and 2.
\<close>

theorem checkpoint_counters_not_cumulative:
  "run_batch checkpoint_json_load None sample_procs sample_chrome sample_disk sample_now
     [(''https://x/1'', ''Ace Roll'')]
     = ([CloseAllChrome (sample_procs 1), ScrapeSingleProvider ''https://x/1'' ''Ace Roll'',
         SaveProviderData ''Ace Roll'' sample_result, WriteCheckpoint sample_old_checkpoint,
         Sleep 5],
        \<lparr>completed_providers = [''Ace Roll''], total_games = 2, successful_providers = 1,
         checkpoint_on_disk = Some sample_old_doc, crashed = None\<rparr>)
   \<and> load_checkpoint checkpoint_json_load (Some sample_old_doc) = [''Ace Roll'']
   \<and> checkpoints_written
     (fst (run_batch checkpoint_json_load (Some sample_old_doc) sample_procs sample_chrome
             sample_disk sample_now
             [(''https://x/1'', ''Ace Roll''), (''https://x/2'', ''All41'')]))
     = [sample_new_checkpoint]
   \<and> games_saved
     (fst (run_batch checkpoint_json_load (Some sample_old_doc) sample_procs sample_chrome
             sample_disk sample_now
             [(''https://x/1'', ''Ace Roll''), (''https://x/2'', ''All41'')]))
     = [2]
   \<and> ck_total_games_so_far sample_new_checkpoint
       \<noteq> ck_total_games_so_far sample_old_checkpoint + 2
   \<and> ck_successful_providers sample_new_checkpoint
       \<noteq> ck_successful_providers sample_old_checkpoint + 1"
  by (simp only: sample_first_run sample_resumed_run fst_conv json_dumps_sample_old)
    (simp add: sample_result_def sample_old_checkpoint_def sample_new_checkpoint_def
      load_sample_old)

section \<open>Properties of the image fetcher\<close>

lemma process_games_append:
  "process_games http pn i (xs @ ys) st
   = process_games http pn (i + length xs) ys (process_games http pn i xs st)"
  by (induction xs arbitrary: i st) auto

lemma process_game_no_url:
  "dict_get g ''image_url'' [] = [] \<Longrightarrow> process_game http pn i g st = st"
  by (simp add: process_game_def)

lemma process_game_existing:
  assumes "dict_get g ''image_url'' [] \<noteq> []"
    and "game_image_path pn i g \<in> existing_files st"
  shows "process_game http pn i g st
     = st\<lparr>bad_quality_fixed :=
             (if sublist bad_quality (dict_get g ''image_url'' [])
              then bad_quality_fixed st + 1 else bad_quality_fixed st),
           successful_downloads := successful_downloads st + 1,
           processed_games := processed_games st @ [processed_entry pn i g]\<rparr>"
  using assms by (simp add: process_game_def Let_def)

lemma process_game_failed:
  assumes "dict_get g ''image_url'' [] \<noteq> []"
    and "game_image_path pn i g \<notin> existing_files st"
    and "http i (fix_image_url_quality (dict_get g ''image_url'' [])) \<noteq> Saved"
  shows "process_game http pn i g st
     = st\<lparr>bad_quality_fixed :=
             (if sublist bad_quality (dict_get g ''image_url'' [])
              then bad_quality_fixed st + 1 else bad_quality_fixed st),
           fetches := fetches st @ [(i, fix_image_url_quality (dict_get g ''image_url'' []),
                                     game_image_path pn i g)],
           processed_games := processed_games st @ [processed_entry pn i g]\<rparr>"
  using assms
  by (cases "http i (fix_image_url_quality (dict_get g ''image_url'' []))")
     (simp_all add: process_game_def Let_def download_and_convert_image_def)

lemma process_game_saved:
  assumes "dict_get g ''image_url'' [] \<noteq> []"
    and "game_image_path pn i g \<notin> existing_files st"
    and "http i (fix_image_url_quality (dict_get g ''image_url'' [])) = Saved"
  shows "process_game http pn i g st
     = st\<lparr>bad_quality_fixed :=
             (if sublist bad_quality (dict_get g ''image_url'' [])
              then bad_quality_fixed st + 1 else bad_quality_fixed st),
           existing_files := insert (game_image_path pn i g) (existing_files st),
           successful_downloads := successful_downloads st + 1,
           fetches := fetches st @ [(i, fix_image_url_quality (dict_get g ''image_url'' []),
                                     game_image_path pn i g)],
           processed_games := processed_games st @ [processed_entry pn i g]\<rparr>"
  using assms
  by (simp add: process_game_def Let_def download_and_convert_image_def)

lemma process_game_cases:
  obtains (no_url) "dict_get g ''image_url'' [] = []"
  | (existing) "dict_get g ''image_url'' [] \<noteq> []" "game_image_path pn i g \<in> existing_files st"
  | (failed) "dict_get g ''image_url'' [] \<noteq> []" "game_image_path pn i g \<notin> existing_files st"
      "http i (fix_image_url_quality (dict_get g ''image_url'' [])) \<noteq> Saved"
  | (saved) "dict_get g ''image_url'' [] \<noteq> []" "game_image_path pn i g \<notin> existing_files st"
      "http i (fix_image_url_quality (dict_get g ''image_url'' [])) = Saved"
  by blast

lemma process_game_effects:
  "existing_files st \<subseteq> existing_files (process_game http pn i g st)
   \<and> (\<forall>f \<in> set (fetches (process_game http pn i g st)). f \<in> set (fetches st) \<or> fst f = i)
   \<and> processed_games (process_game http pn i g st)
       = processed_games st @ entries_with_url pn i [g]"
proof (cases rule: process_game_cases [where g = g and pn = pn and i = i and st = st and http = http])
  case no_url
  then show ?thesis by (simp add: process_game_no_url)
next
  case existing
  then show ?thesis by (simp add: process_game_existing)
next
  case failed
  then show ?thesis by (auto simp: process_game_failed)
next
  case saved
  then show ?thesis by (auto simp: process_game_saved)
qed

lemma process_games_effects:
  "existing_files st \<subseteq> existing_files (process_games http pn i gs st)
   \<and> (\<forall>f \<in> set (fetches (process_games http pn i gs st)).
         f \<in> set (fetches st) \<or> (i \<le> fst f \<and> fst f < i + length gs))
   \<and> processed_games (process_games http pn i gs st)
       = processed_games st @ entries_with_url pn i gs"
proof (induction gs arbitrary: i st)
  case Nil
  then show ?case by simp
next
  case (Cons g gs)
  note G = process_game_effects [of st http pn i g]
  note IH = Cons.IH [of "process_game http pn i g st" "i + 1"]
  have "existing_files st \<subseteq> existing_files (process_games http pn i (g # gs) st)"
    using G IH by auto
  moreover have "\<forall>f \<in> set (fetches (process_games http pn i (g # gs) st)).
         f \<in> set (fetches st) \<or> (i \<le> fst f \<and> fst f < i + length (g # gs))"
    using G IH by fastforce
  moreover have "processed_games (process_games http pn i (g # gs) st)
       = processed_games st @ entries_with_url pn i (g # gs)"
    using G IH by simp
  ultimately show ?case by blast
qed


lemma entries_with_url_append:
  "entries_with_url pn i (xs @ ys)
   = entries_with_url pn i xs @ entries_with_url pn (i + length xs) ys"
  by (induction xs arbitrary: i) auto

lemma length_entries_with_url:
  "length (entries_with_url pn i gs)
   = length (filter (\<lambda>g. dict_get g ''image_url'' [] \<noteq> []) gs)"
  by (induction gs arbitrary: i) auto

lemma process_provider_entries:
  "process_provider_with_fixed_urls http existing pn (Inr gs) = entries_with_url pn 1 gs"
  using process_games_effects [of "start_state existing" http pn 1 gs]
  by (simp add: process_provider_with_fixed_urls_def process_provider_state_def start_state_def)

text \<open>
  Claim C5. Let a game have an image URL and let its output path exist on disk when the
  provider is processed. Whatever games come before and after it, its turn makes no HTTP
  request and changes no file, counts one more successful download and appends its
  entry; no request of the whole call is for this game, and its entry is in the list
  returned.
\<close>

theorem fetch_idempotence:
  assumes "dict_get g ''image_url'' [] \<noteq> []"
    and "game_image_path pn (length xs + 1) g \<in> existing"
    and "before = process_games http pn 1 xs (start_state existing)"
  shows "process_provider_state http existing pn (Inr (xs @ g # ys))
       = process_games http pn (length xs + 2) ys (process_game http pn (length xs + 1) g before)
    \<and> fetches (process_game http pn (length xs + 1) g before) = fetches before
    \<and> existing_files (process_game http pn (length xs + 1) g before) = existing_files before
    \<and> successful_downloads (process_game http pn (length xs + 1) g before)
        = successful_downloads before + 1
    \<and> processed_games (process_game http pn (length xs + 1) g before)
        = processed_games before @ [processed_entry pn (length xs + 1) g]
    \<and> (\<forall>u p. (length xs + 1, u, p)
          \<notin> set (fetches (process_provider_state http existing pn (Inr (xs @ g # ys)))))
    \<and> processed_entry pn (length xs + 1) g
        \<in> set (process_provider_with_fixed_urls http existing pn (Inr (xs @ g # ys)))"
proof -
  let ?i = "length xs + 1"
  let ?after = "process_game http pn ?i g before"
  note B = process_games_effects [of "start_state existing" http pn 1 xs]
  from B assms(2,3) have there: "game_image_path pn ?i g \<in> existing_files before"
    by (auto simp: start_state_def)
  note step = process_game_existing [OF assms(1) there, of http]
  have whole: "process_provider_state http existing pn (Inr (xs @ g # ys))
       = process_games http pn (length xs + 2) ys ?after"
    by (simp add: process_provider_state_def process_games_append assms(3) add.commute)
  have none_before: "\<forall>f \<in> set (fetches before). fst f < ?i"
    using B assms(3) by (auto simp: start_state_def)
  have "\<forall>f \<in> set (fetches (process_games http pn (length xs + 2) ys ?after)). fst f \<noteq> ?i"
  proof
    fix f assume "f \<in> set (fetches (process_games http pn (length xs + 2) ys ?after))"
    with process_games_effects [of ?after http pn "length xs + 2" ys]
    have "f \<in> set (fetches ?after) \<or> length xs + 2 \<le> fst f" by auto
    with step none_before show "fst f \<noteq> ?i" by auto
  qed
  with whole have no_fetch: "\<forall>u p. (?i, u, p)
          \<notin> set (fetches (process_provider_state http existing pn (Inr (xs @ g # ys))))"
    by force
  have "processed_entry pn ?i g \<in> set (entries_with_url pn 1 (xs @ g # ys))"
    using assms(1) by (simp add: entries_with_url_append add.commute)
  then have entry: "processed_entry pn ?i g
        \<in> set (process_provider_with_fixed_urls http existing pn (Inr (xs @ g # ys)))"
    by (simp only: process_provider_entries)
  have same: "fetches ?after = fetches before" "existing_files ?after = existing_files before"
    "successful_downloads ?after = successful_downloads before + 1"
    "processed_games ?after = processed_games before @ [processed_entry pn ?i g]"
    unfolding step by simp_all
  from whole no_fetch entry same show ?thesis
    by (simp only: simp_thms)
qed

text \<open>
  Claim C7, amended. The list returned has one entry for every game with an image URL, in
  the order of the games, whatever the fetches do. When the image of such a game is not
  on disk and its fetch, decoding or encoding raises, \<^verbatim>\<open>download_and_convert_image\<close>
  catches the exception and returns \<open>False\<close>: the game is not counted as a successful
  download and no file appears, but its entry is appended all the same, and processing
  goes on with the next game.
\<close>

theorem failed_fetch_still_recorded:
  "process_provider_with_fixed_urls http existing pn (Inr gs) = entries_with_url pn 1 gs
   \<and> length (process_provider_with_fixed_urls http existing pn (Inr gs))
       = length (filter (\<lambda>g. dict_get g ''image_url'' [] \<noteq> []) gs)
   \<and> (dict_get g ''image_url'' [] \<noteq> [] \<and> game_image_path pn i g \<notin> existing_files st
        \<and> http i (fix_image_url_quality (dict_get g ''image_url'' [])) \<noteq> Saved
       \<longrightarrow> processed_games (process_game http pn i g st)
             = processed_games st @ [processed_entry pn i g]
           \<and> successful_downloads (process_game http pn i g st) = successful_downloads st
           \<and> existing_files (process_game http pn i g st) = existing_files st
           \<and> fetches (process_game http pn i g st)
             = fetches st @ [(i, fix_image_url_quality (dict_get g ''image_url'' []),
                              game_image_path pn i g)])"
  by (simp add: process_provider_entries length_entries_with_url process_game_failed)


lemma sample_game_url:
  "dict_get sample_game ''image_url'' [] = ''https://cdn/quality=20,blur=150/a.png''"
  by (simp add: sample_game_def dict_get_def)

lemma sample_game_fixed:
  "fix_image_url_quality ''https://cdn/quality=20,blur=150/a.png''
   = ''https://cdn/quality=90,blur=0/a.png''"
  by (simp add: fix_image_url_quality_def bad_quality_def good_quality_def good_pattern_def
      better_pattern_def)

lemma sanitize_Ace_Roll: "sanitize_filename ''Ace Roll'' = ''Ace Roll''"
  by (simp add: sanitize_filename_def invalid_chars_def strip_def is_space_def)

lemma sanitize_A: "sanitize_filename ''A'' = ''A''"
  by (simp add: sanitize_filename_def invalid_chars_def strip_def is_space_def)

lemma sample_game_path:
  "game_image_path ''Ace Roll'' 1 sample_game
   = ''Final_Quality_Fixed/Ace Roll/Ace Roll - A.webp''"
  by (simp add: game_image_path_def game_filename_def path_join_def sample_game_def
      dict_get_def sanitize_Ace_Roll sanitize_A)

lemma sample_game_entry:
  "processed_entry ''Ace Roll'' 1 sample_game
   = \<lparr>file_name = ''Ace Roll - A.webp'', game_title = ''A'', game_provider = ''Ace Roll'',
      game_url = ''/game'', original_url = ''https://cdn/quality=20,blur=150/a.png'',
      fixed_url = ''https://cdn/quality=90,blur=0/a.png'',
      local_path = ''Final_Quality_Fixed/Ace Roll/Ace Roll - A.webp''\<rparr>"
  unfolding processed_entry_def sample_game_path sample_game_url sample_game_fixed
  by (simp add: game_filename_def sample_game_def dict_get_def sanitize_Ace_Roll sanitize_A)


theorem fetch_idempotence_witness:
  "fetches (process_provider_state (\<lambda>i u. FetchFails ''unreachable'')
              {''Final_Quality_Fixed/Ace Roll/Ace Roll - A.webp''} ''Ace Roll''
              (Inr [sample_game])) = []
   \<and> successful_downloads (process_provider_state (\<lambda>i u. FetchFails ''unreachable'')
              {''Final_Quality_Fixed/Ace Roll/Ace Roll - A.webp''} ''Ace Roll''
              (Inr [sample_game])) = 1
   \<and> processed_entry ''Ace Roll'' 1 sample_game
       \<in> set (process_provider_with_fixed_urls (\<lambda>i u. FetchFails ''unreachable'')
              {''Final_Quality_Fixed/Ace Roll/Ace Roll - A.webp''} ''Ace Roll''
              (Inr [sample_game]))"
proof -
  let ?http = "\<lambda>(i::nat) (u::string). FetchFails ''unreachable''"
  let ?existing = "{''Final_Quality_Fixed/Ace Roll/Ace Roll - A.webp''}"
  have h1: "dict_get sample_game ''image_url'' [] \<noteq> []"
    by (simp add: sample_game_url)
  have h2: "game_image_path ''Ace Roll'' (length ([]::game_dict list) + 1) sample_game
      \<in> ?existing"
    using sample_game_path by simp
  have h3: "start_state ?existing
      = process_games ?http ''Ace Roll'' 1 [] (start_state ?existing)"
    by simp
  note T = fetch_idempotence [OF h1 h2 h3, of "[]"]
  from T have whole: "process_provider_state ?http ?existing ''Ace Roll'' (Inr [sample_game])
      = process_game ?http ''Ace Roll'' 1 sample_game (start_state ?existing)"
    by simp
  from T have "fetches (process_game ?http ''Ace Roll'' 1 sample_game (start_state ?existing)) = []"
    "successful_downloads (process_game ?http ''Ace Roll'' 1 sample_game (start_state ?existing))
      = 1"
    by (simp_all add: start_state_def)
  moreover from T have "processed_entry ''Ace Roll'' 1 sample_game
       \<in> set (process_provider_with_fixed_urls ?http ?existing ''Ace Roll'' (Inr [sample_game]))"
    by simp
  ultimately show ?thesis
    by (simp only: whole simp_thms)
qed

text \<open>
  Claim C7, as stated, fails: the one game of this provider has an image URL, its fetch
  raises, and its entry is in the list returned.
\<close>

theorem failed_fetch_not_omitted:
  "process_provider_with_fixed_urls (\<lambda>i u. FetchFails ''timed out'') {} ''Ace Roll''
     (Inr [sample_game])
   = [\<lparr>file_name = ''Ace Roll - A.webp'', game_title = ''A'', game_provider = ''Ace Roll'',
       game_url = ''/game'', original_url = ''https://cdn/quality=20,blur=150/a.png'',
       fixed_url = ''https://cdn/quality=90,blur=0/a.png'',
       local_path = ''Final_Quality_Fixed/Ace Roll/Ace Roll - A.webp''\<rparr>]
   \<and> fetches (process_provider_state (\<lambda>i u. FetchFails ''timed out'') {} ''Ace Roll''
        (Inr [sample_game]))
     = [(1, ''https://cdn/quality=90,blur=0/a.png'',
         ''Final_Quality_Fixed/Ace Roll/Ace Roll - A.webp'')]
   \<and> successful_downloads (process_provider_state (\<lambda>i u. FetchFails ''timed out'') {}
        ''Ace Roll'' (Inr [sample_game])) = 0"
proof -
  have step: "process_game (\<lambda>i u. FetchFails ''timed out'') ''Ace Roll'' 1 sample_game
      (start_state {})
    = (start_state {})
        \<lparr>bad_quality_fixed :=
           (if sublist bad_quality (dict_get sample_game ''image_url'' [])
            then bad_quality_fixed (start_state {}) + 1 else bad_quality_fixed (start_state {})),
         fetches := fetches (start_state {})
           @ [(1, fix_image_url_quality (dict_get sample_game ''image_url'' []),
               game_image_path ''Ace Roll'' 1 sample_game)],
         processed_games := processed_games (start_state {})
           @ [processed_entry ''Ace Roll'' 1 sample_game]\<rparr>"
    by (rule process_game_failed) (simp_all add: sample_game_url start_state_def)
  have "process_provider_state (\<lambda>i u. FetchFails ''timed out'') {} ''Ace Roll''
        (Inr [sample_game])
      = process_game (\<lambda>i u. FetchFails ''timed out'') ''Ace Roll'' 1 sample_game (start_state {})"
    by (simp add: process_provider_state_def)
  then show ?thesis
    unfolding process_provider_with_fixed_urls_def step sample_game_entry sample_game_url
      sample_game_fixed sample_game_path
    by (simp add: start_state_def)
qed

theorem failed_fetch_still_recorded_witness:
  "processed_games (process_game (\<lambda>i u. DecodeFails ''not an image'') ''Ace Roll'' 1
       sample_game (start_state {}))
     = [processed_entry ''Ace Roll'' 1 sample_game]
   \<and> successful_downloads (process_game (\<lambda>i u. DecodeFails ''not an image'') ''Ace Roll'' 1
       sample_game (start_state {})) = 0"
  using failed_fetch_still_recorded
    [where g = sample_game and i = 1 and pn = "''Ace Roll''" and st = "start_state {}"
       and http = "\<lambda>i u. DecodeFails ''not an image''"]
  by (simp add: sample_game_url start_state_def)

section \<open>Properties of the checkpoint file\<close>

lemma load_interrupted_write:
  "load_checkpoint checkpoint_json_load (interrupted_write (json_dumps checkpoint) k)
     = (if k < length (json_dumps checkpoint) then [] else ck_completed_providers checkpoint)"
  by (simp add: interrupted_write_def load_checkpoint_def checkpoint_json_load_cut
      json_roundtrip)

lemma main_step_file_written:
  assumes "main_step procs chrome disk now i (u, pn) st = (evs, st')"
    and "WriteCheckpoint ck \<in> set evs"
  shows "(\<exists>e. disk i = OpenRaises e \<and> checkpoint_on_disk st' = checkpoint_on_disk st)
    \<or> (\<exists>k e. disk i = WriteStops k e
          \<and> checkpoint_on_disk st' = interrupted_write (json_dumps ck) k)
    \<or> (disk i = Persisted \<and> checkpoint_on_disk st' = Some (json_dumps ck))"
  using assms(1)
  by (cases rule: main_step_cases) (use assms(2) in auto)

lemma main_step_file_kept:
  assumes "main_step procs chrome disk now i (u, pn) st = (evs, st')"
    and "\<forall>ck. WriteCheckpoint ck \<notin> set evs"
  shows "checkpoint_on_disk st' = checkpoint_on_disk st"
  using assms(1)
  by (cases rule: main_step_cases) (use assms(2) in auto)

lemma main_step_file:
  assumes "main_step procs chrome disk now i p st = (evs, st')"
    and "load_checkpoint checkpoint_json_load (checkpoint_on_disk st) = completed_providers st"
    and "crashed st = None"
  shows "(crashed st' = None \<longrightarrow>
            load_checkpoint checkpoint_json_load (checkpoint_on_disk st')
              = completed_providers st')
    \<and> (load_checkpoint checkpoint_json_load (checkpoint_on_disk st') = completed_providers st'
        \<or> load_checkpoint checkpoint_json_load (checkpoint_on_disk st')
             = butlast (completed_providers st')
        \<or> load_checkpoint checkpoint_json_load (checkpoint_on_disk st') = [])"
proof -
  obtain u pn where p: "p = (u, pn)" by (cases p)
  from assms(1) [unfolded p] show ?thesis
  proof (cases rule: main_step_cases)
    case (write_stops r k e ck)
    then show ?thesis using load_interrupted_write [of ck k] by auto
  next
    case (succeeded r ck)
    then show ?thesis
      using assms(3) by (simp add: load_checkpoint_def json_roundtrip)
  qed (use assms(2,3) in auto)
qed

lemma main_loop_file:
  assumes "main_loop procs chrome disk now i targets st = (evs, st')"
    and "load_checkpoint checkpoint_json_load (checkpoint_on_disk st) = completed_providers st"
    and "crashed st = None"
  shows "(crashed st' = None \<longrightarrow>
            load_checkpoint checkpoint_json_load (checkpoint_on_disk st')
              = completed_providers st')
    \<and> (load_checkpoint checkpoint_json_load (checkpoint_on_disk st') = completed_providers st'
        \<or> load_checkpoint checkpoint_json_load (checkpoint_on_disk st')
             = butlast (completed_providers st')
        \<or> load_checkpoint checkpoint_json_load (checkpoint_on_disk st') = [])"
  using assms
proof (induction targets arbitrary: i st evs st')
  case Nil
  then show ?case by simp
next
  case (Cons p rest)
  obtain e1 s1 where step: "main_step procs chrome disk now i p st = (e1, s1)"
    by (cases "main_step procs chrome disk now i p st")
  note S = main_step_file [OF step Cons.prems(2,3)]
  show ?case
  proof (cases "crashed s1 \<noteq> None")
    case True
    with step Cons.prems(1) have "st' = s1" by auto
    with S show ?thesis by simp
  next
    case False
    obtain e2 s2 where rest: "main_loop procs chrome disk now (i + 1) rest s1 = (e2, s2)"
      by (cases "main_loop procs chrome disk now (i + 1) rest s1")
    with step False Cons.prems(1) have eq: "st' = s2" by auto
    from False S have "load_checkpoint checkpoint_json_load (checkpoint_on_disk s1)
        = completed_providers s1" "crashed s1 = None"
      by simp_all
    from Cons.IH [OF rest this] eq show ?thesis by simp
  qed
qed

text \<open>
  Claim C2, amended. The checkpoint is rewritten in place: \<^verbatim>\<open>open(checkpoint_file, 'w')\<close>
  empties the file, and \<^verbatim>\<open>json.dump\<close> then writes the new document into it from the
  front; there is no second file and no replacement. After an interruption the file holds
  a beginning of the new document. \<^verbatim>\<open>json.load\<close> rejects every proper beginning of a
  document that \<^verbatim>\<open>json.dump\<close> writes for a checkpoint, and reads the whole document back
  as the checkpoint written; a failure to read is taken as no checkpoint. So a load
  after an interruption gives the empty list, and the state just written once the write
  is complete. No state updated in part is ever loaded; the state before the write is
  lost from the moment the file is opened. In a run that started from the file: a pass
  that comes to the write leaves the file as it was when the file cannot be opened, the
  beginning of the new document when the write stops, and the new document otherwise;
  a pass that does not come to it leaves the file as it was; and the list loaded from
  the file the run leaves is the list of the run when the run was not ended by an
  exception, and otherwise that list, that list without its last name, or the empty list.
\<close>

theorem checkpoint_written_in_place:
  "interrupted_write (json_dumps checkpoint) 0 = Some []
   \<and> interrupted_write (json_dumps checkpoint) (length (json_dumps checkpoint))
       = Some (json_dumps checkpoint)
   \<and> checkpoint_json_load (json_dumps checkpoint) = Some checkpoint
   \<and> (\<forall>k<length (json_dumps checkpoint).
         checkpoint_json_load (take k (json_dumps checkpoint)) = None)
   \<and> load_checkpoint checkpoint_json_load (interrupted_write (json_dumps checkpoint) k)
       = (if k < length (json_dumps checkpoint) then []
          else ck_completed_providers checkpoint)
   \<and> load_checkpoint checkpoint_json_load None = []
   \<and> (main_step procs chrome disk now i (target_url, target_name) st_before = (pass_evs, st_after) \<longrightarrow>
         (\<forall>ck. WriteCheckpoint ck \<in> set pass_evs \<longrightarrow>
            (\<exists>e. disk i = OpenRaises e \<and> checkpoint_on_disk st_after = checkpoint_on_disk st_before)
            \<or> (\<exists>k e. disk i = WriteStops k e
                  \<and> checkpoint_on_disk st_after = interrupted_write (json_dumps ck) k)
            \<or> (disk i = Persisted \<and> checkpoint_on_disk st_after = Some (json_dumps ck)))
         \<and> ((\<forall>ck. WriteCheckpoint ck \<notin> set pass_evs) \<longrightarrow>
               checkpoint_on_disk st_after = checkpoint_on_disk st_before))
   \<and> (run_batch checkpoint_json_load checkpoint_file procs chrome disk now targets = (evs, st)
        \<longrightarrow>
         (crashed st = None \<longrightarrow>
            load_checkpoint checkpoint_json_load (checkpoint_on_disk st)
              = completed_providers st)
         \<and> (load_checkpoint checkpoint_json_load (checkpoint_on_disk st) = completed_providers st
            \<or> load_checkpoint checkpoint_json_load (checkpoint_on_disk st)
                 = butlast (completed_providers st)
            \<or> load_checkpoint checkpoint_json_load (checkpoint_on_disk st) = []))"
proof -
  have a: "interrupted_write (json_dumps checkpoint) 0 = Some []"
    "interrupted_write (json_dumps checkpoint) (length (json_dumps checkpoint))
       = Some (json_dumps checkpoint)"
    "load_checkpoint checkpoint_json_load None = []"
    by (simp_all add: interrupted_write_def load_checkpoint_def)
  have pass: "(\<forall>ck. WriteCheckpoint ck \<in> set pass_evs \<longrightarrow>
            (\<exists>e. disk i = OpenRaises e \<and> checkpoint_on_disk st_after = checkpoint_on_disk st_before)
            \<or> (\<exists>k e. disk i = WriteStops k e
                  \<and> checkpoint_on_disk st_after = interrupted_write (json_dumps ck) k)
            \<or> (disk i = Persisted \<and> checkpoint_on_disk st_after = Some (json_dumps ck)))
         \<and> ((\<forall>ck. WriteCheckpoint ck \<notin> set pass_evs) \<longrightarrow>
               checkpoint_on_disk st_after = checkpoint_on_disk st_before)"
    if "main_step procs chrome disk now i (target_url, target_name) st_before = (pass_evs, st_after)"
    using main_step_file_written [OF that] main_step_file_kept [OF that] by blast
  have run: "(crashed st = None \<longrightarrow>
            load_checkpoint checkpoint_json_load (checkpoint_on_disk st)
              = completed_providers st)
         \<and> (load_checkpoint checkpoint_json_load (checkpoint_on_disk st) = completed_providers st
            \<or> load_checkpoint checkpoint_json_load (checkpoint_on_disk st)
                 = butlast (completed_providers st)
            \<or> load_checkpoint checkpoint_json_load (checkpoint_on_disk st) = [])"
    if "run_batch checkpoint_json_load checkpoint_file procs chrome disk now targets = (evs, st)"
    using main_loop_file [OF that [unfolded run_batch_def]] by simp
  from a json_roundtrip [of checkpoint] checkpoint_json_load_cut [of _ checkpoint]
    load_interrupted_write [of checkpoint k] pass run
  show ?thesis by (intro conjI impI allI) blast+
qed

theorem checkpoint_written_in_place_witness:
  "load_checkpoint checkpoint_json_load (interrupted_write sample_new_doc 40) = []
   \<and> load_checkpoint checkpoint_json_load (interrupted_write sample_new_doc 159)
       = [''Ace Roll'', ''All41'']
   \<and> checkpoint_json_load (take 158 sample_new_doc) = None
   \<and> load_checkpoint checkpoint_json_load
        (checkpoint_on_disk
           (snd (run_batch checkpoint_json_load (Some sample_old_doc) sample_procs sample_chrome
                   sample_disk sample_now
                   [(''https://x/1'', ''Ace Roll''), (''https://x/2'', ''All41'')])))
       = [''Ace Roll'', ''All41'']"
proof -
  let ?evs = "[Skipped ''Ace Roll'', CloseAllChrome (sample_procs 2),
       ScrapeSingleProvider ''https://x/2'' ''All41'',
       SaveProviderData ''All41'' sample_result, WriteCheckpoint sample_new_checkpoint,
       Sleep 5]"
  let ?st = "\<lparr>completed_providers = [''Ace Roll'', ''All41''], total_games = 2,
       successful_providers = 1,
       checkpoint_on_disk = Some (json_dumps sample_new_checkpoint), crashed = None\<rparr>"
  have len: "length (json_dumps sample_new_checkpoint) = 159"
    by (simp add: json_dumps_sample_new sample_new_doc_def)
  note T = checkpoint_written_in_place
    [where checkpoint = sample_new_checkpoint and checkpoint_file = "Some sample_old_doc"
       and procs = sample_procs and chrome = sample_chrome and disk = sample_disk
       and now = sample_now
       and targets = "[(''https://x/1'', ''Ace Roll''), (''https://x/2'', ''All41'')]"
       and evs = ?evs and st = ?st and i = 2 and target_url = "''https://x/2''"
       and target_name = "''All41''" and pass_evs = "tl ?evs" and st_after = ?st
       and st_before = "\<lparr>completed_providers = [''Ace Roll''], total_games = 0,
         successful_providers = 0, checkpoint_on_disk = Some sample_old_doc,
         crashed = None\<rparr>"]
  from T [where k = 40]
  have "load_checkpoint checkpoint_json_load
      (interrupted_write (json_dumps sample_new_checkpoint) 40)
      = (if 40 < length (json_dumps sample_new_checkpoint) then []
         else ck_completed_providers sample_new_checkpoint)"
    by (elim conjE; assumption?)
  then have "load_checkpoint checkpoint_json_load
      (interrupted_write (json_dumps sample_new_checkpoint) 40) = []"
    by (simp only: len) simp
  moreover from T [where k = 159]
  have "load_checkpoint checkpoint_json_load
      (interrupted_write (json_dumps sample_new_checkpoint) 159)
      = (if 159 < length (json_dumps sample_new_checkpoint) then []
         else ck_completed_providers sample_new_checkpoint)"
    by (elim conjE; assumption?)
  then have "load_checkpoint checkpoint_json_load
      (interrupted_write (json_dumps sample_new_checkpoint) 159) = [''Ace Roll'', ''All41'']"
    by (simp only: len) (simp add: sample_new_checkpoint_def)
  moreover from T [where k = 0]
  have "\<forall>k<length (json_dumps sample_new_checkpoint).
      checkpoint_json_load (take k (json_dumps sample_new_checkpoint)) = None"
    by (elim conjE; assumption?)
  then have "checkpoint_json_load (take 158 (json_dumps sample_new_checkpoint)) = None"
    by (simp add: len)
  moreover from T [where k = 0]
  have "run_batch checkpoint_json_load (Some sample_old_doc) sample_procs sample_chrome
      sample_disk sample_now [(''https://x/1'', ''Ace Roll''), (''https://x/2'', ''All41'')]
      = (?evs, ?st) \<longrightarrow>
      (crashed ?st = None \<longrightarrow>
         load_checkpoint checkpoint_json_load (checkpoint_on_disk ?st) = completed_providers ?st)
      \<and> (load_checkpoint checkpoint_json_load (checkpoint_on_disk ?st) = completed_providers ?st
         \<or> load_checkpoint checkpoint_json_load (checkpoint_on_disk ?st)
              = butlast (completed_providers ?st)
         \<or> load_checkpoint checkpoint_json_load (checkpoint_on_disk ?st) = [])"
    by (elim conjE; assumption?)
  with sample_resumed_run
  have "load_checkpoint checkpoint_json_load (Some (json_dumps sample_new_checkpoint))
      = [''Ace Roll'', ''All41'']"
    by simp
  ultimately show ?thesis
    by (simp only: sample_resumed_run snd_conv json_dumps_sample_new) simp
qed

text \<open>
  Claim C2, as stated, fails: the write is not write-then-replace. Interrupted right
  after the file is opened, the code leaves an empty file, from which a load gives the
  empty list; write-then-replace would leave the old file, from which the state before
  the write is loaded. So does a run that resumes from the old file and is interrupted
  at its first write.
\<close>

theorem checkpoint_write_not_atomic:
  "checkpoint_json_load sample_old_doc = Some sample_old_checkpoint
   \<and> json_dumps sample_new_checkpoint = sample_new_doc
   \<and> interrupted_write sample_new_doc 0 = Some []
   \<and> write_then_replace (Some sample_old_doc) sample_new_doc 0 = Some sample_old_doc
   \<and> load_checkpoint checkpoint_json_load (interrupted_write sample_new_doc 0) = []
   \<and> load_checkpoint checkpoint_json_load
        (write_then_replace (Some sample_old_doc) sample_new_doc 0) = [''Ace Roll'']
   \<and> interrupted_write sample_new_doc 0
       \<noteq> write_then_replace (Some sample_old_doc) sample_new_doc 0
   \<and> checkpoint_on_disk
        (snd (run_batch checkpoint_json_load (Some sample_old_doc) sample_procs sample_chrome
                (\<lambda>i. WriteStops 0 ''KeyboardInterrupt'') sample_now
                [(''https://x/1'', ''Ace Roll''), (''https://x/2'', ''All41'')]))
       = Some []"
proof -
  have empty: "checkpoint_json_load [] = None"
    by (simp add: checkpoint_json_load_def json_loads_def decoder_result_def)
  have ne: "sample_old_doc \<noteq> []"
    by (simp add: sample_old_doc_def)
  have len: "0 < length sample_new_doc"
    by (simp add: sample_new_doc_def)
  show ?thesis
    using checkpoint_json_load_old json_dumps_sample_new empty ne len
    by (simp only: sample_interrupted_run snd_conv run_state.simps)
      (simp add: interrupted_write_def write_then_replace_def load_checkpoint_def
        sample_old_checkpoint_def)
qed

end
